theory Spec2Isabelle
  imports Main "HOL-Library.AList"
begin

section \<open>The object store of \<open>road_map.py\<close>\<close>

text \<open>
  The program builds two kinds of mutable objects: \<open>_Vertex\<close> instances and
  Python \<open>set\<close> objects. A vertex holds its item and a reference to its own
  neighbour set; a neighbour set holds references to vertices (a \<open>_Vertex\<close>
  defines neither \<open>__eq__\<close> nor \<open>__hash__\<close>, so membership is by object
  identity). Both kinds live in a store, one list per class, and a reference is an index
  into the list of its class. The fields of a vertex are assigned in \<open>__init__\<close>
  only, so the list of vertices only ever grows; set objects are updated in place by
  \<open>add\<close>.

  The lists handled by the path enumeration (\<open>visited\<close>, \<open>path\<close>,
  \<open>final_path\<close>) hold items and are threaded through the functions as values:
  no object of a graph is a list.
\<close>

type_synonym addr = nat

record 'a vertex =
  item :: 'a
  neighbours :: addr

record 'a graph =
  vertices :: "('a \<times> addr) list"
  vertex_heap :: "'a vertex list"
  set_heap :: "addr set list"

datatype error = ValueError

text \<open>
  Python leaves the iteration order of a set unspecified. Every loop over a set takes
  the order from a parameter: \<open>it s S\<close> is the order in which the set object at
  address \<open>s\<close>, holding the elements \<open>S\<close>, is traversed. An admissible order
  lists every element once.
\<close>

type_synonym iter = "addr \<Rightarrow> addr set \<Rightarrow> addr list"

definition valid_iter :: "iter \<Rightarrow> bool" where
  "valid_iter it = (\<forall>s S. finite S \<longrightarrow> set (it s S) = S \<and> distinct (it s S))"

definition iter_sorted :: iter where
  "iter_sorted s S = sorted_list_of_set S"

section \<open>Class \<open>_Vertex\<close>\<close>

text \<open>The neighbour set of the vertex at address \<open>v\<close>: \<open>v.neighbours\<close>, read
  through the store.\<close>

definition nbrs :: "'a vertex list \<Rightarrow> addr set list \<Rightarrow> addr \<Rightarrow> addr set" where
  "nbrs vh sh v = sh ! neighbours (vh ! v)"

text \<open>\<open>s.add(x)\<close> on the set object at address \<open>s\<close>.\<close>

definition set_add :: "addr set list \<Rightarrow> addr \<Rightarrow> addr \<Rightarrow> addr set list" where
  "set_add sh s x = sh[s := insert x (sh ! s)]"

subsection \<open>\<open>check_connected\<close>\<close>

text \<open>
  \<open>visited\<close> is the address of a set object, which the search updates in place;
  the function returns the answer and the set store it leaves behind. The loop over
  \<open>self.neighbours\<close> is \<open>check_connected_loop\<close>; it returns at the first
  neighbour that answers \<open>True\<close>.
\<close>

function check_connected ::
    "'a vertex list \<Rightarrow> iter \<Rightarrow> addr \<Rightarrow> 'a \<Rightarrow> addr \<Rightarrow> int \<Rightarrow> addr set list \<Rightarrow> bool \<times> addr set list"
  and check_connected_loop ::
    "'a vertex list \<Rightarrow> iter \<Rightarrow> 'a \<Rightarrow> addr list \<Rightarrow> addr \<Rightarrow> int \<Rightarrow> addr set list \<Rightarrow> bool \<times> addr set list"
where
  "check_connected vh it self target_item visited depth sh =
     (if depth > 20 then (False, sh)
      else if item (vh ! self) = target_item then (True, sh)
      else check_connected_loop vh it target_item
             (it (neighbours (vh ! self)) (nbrs vh sh self)) visited depth
             (set_add sh visited self))"
| "check_connected_loop vh it target_item [] visited depth sh = (False, sh)"
| "check_connected_loop vh it target_item (u # us) visited depth sh =
     (if u \<notin> sh ! visited then
        (case check_connected vh it u target_item visited (depth + 1) sh of
           (found, sh') \<Rightarrow>
             if found then (True, sh')
             else check_connected_loop vh it target_item us visited depth sh')
      else check_connected_loop vh it target_item us visited depth sh)"
  by pat_completeness auto
termination
  by (relation "inv_image (less_than <*lex*> less_than)
     (\<lambda>x. case x of
        Inl (vh, it, self, t, vis, d, sh) \<Rightarrow> (if d \<le> 20 then 2 * nat (21 - d) + 2 else 0, 0)
      | Inr (vh, it, t, us, vis, d, sh) \<Rightarrow> (2 * nat (21 - d) + 1, length us))")
    auto

subsection \<open>\<open>check_connected_path\<close>\<close>

text \<open>The counting loop of lines 64 to 69: the positions below
  \<open>min(len(path), len(last))\<close> at which the two lists agree.\<close>

definition count_matching :: "'a list \<Rightarrow> 'a list \<Rightarrow> nat" where
  "count_matching last_path path =
     fold (\<lambda>i count. if last_path ! i = path ! i then count + 1 else count)
       [0 ..< min (length path) (length last_path)] 0"

text \<open>
  Lines 62 to 73: whether the candidate \<open>path\<close> is recorded, and the list of
  results afterwards. \<open>len(path) - half\<close> is never negative, so the subtraction of
  natural numbers is the one of Python's integers.
\<close>

definition record_path :: "'a \<Rightarrow> 'a \<Rightarrow> 'a list \<Rightarrow> 'a list list \<Rightarrow> 'a list list" where
  "record_path self_item target_item path final_path =
     (if self_item = target_item \<and> path \<notin> set final_path then
        if length final_path \<noteq> 0 then
          let half = length path div 3;
              last_path = final_path ! (length final_path - 1);
              count = count_matching last_path path
          in if count < length path - half then final_path @ [path] else final_path
        else final_path @ [path]
      else final_path)"

text \<open>
  The three lists are passed in and returned, with the value the call returns in front:
  \<open>final_path\<close> when \<open>path\<close> is empty at the end, \<open>None\<close> otherwise. The
  recursive call of line 76 passes no \<open>max_depth\<close>, so every nested call runs with
  the default 20. \<open>pop\<close> is \<open>butlast\<close>: both lists have just been appended to,
  and a nested call returns them as it found them (lemma \<open>check_connected_path_stacks\<close>),
  so neither is empty there.
\<close>

function check_connected_path ::
    "'a vertex list \<Rightarrow> addr set list \<Rightarrow> iter \<Rightarrow> addr \<Rightarrow> 'a \<Rightarrow> 'a list \<Rightarrow> 'a list \<Rightarrow> 'a list list
       \<Rightarrow> int \<Rightarrow> int \<Rightarrow> 'a list list option \<times> 'a list \<times> 'a list \<times> 'a list list"
  and check_connected_path_loop ::
    "'a vertex list \<Rightarrow> addr set list \<Rightarrow> iter \<Rightarrow> 'a \<Rightarrow> addr list \<Rightarrow> 'a list \<Rightarrow> 'a list \<Rightarrow> 'a list list
       \<Rightarrow> int \<Rightarrow> 'a list \<times> 'a list \<times> 'a list list"
where
  "check_connected_path vh sh it self target_item visited path final_path depth max_depth =
     (let visited1 = visited @ [item (vh ! self)];
          path1 = path @ [item (vh ! self)]
      in case (if depth \<le> max_depth then
                 check_connected_path_loop vh sh it target_item
                   (it (neighbours (vh ! self)) (nbrs vh sh self)) visited1 path1
                   (record_path (item (vh ! self)) target_item path1 final_path) depth
               else (visited1, path1, final_path)) of
           (visited2, path2, final_path2) \<Rightarrow>
             (if butlast path2 = [] then Some final_path2 else None,
              butlast visited2, butlast path2, final_path2))"
| "check_connected_path_loop vh sh it target_item [] visited path final_path depth =
     (visited, path, final_path)"
| "check_connected_path_loop vh sh it target_item (i # is) visited path final_path depth =
     (if item (vh ! i) \<notin> set visited then
        (case check_connected_path vh sh it i target_item visited path final_path (depth + 1) 20 of
           (r, visited', path', final_path') \<Rightarrow>
             check_connected_path_loop vh sh it target_item is visited' path' final_path' depth)
      else check_connected_path_loop vh sh it target_item is visited path final_path depth)"
  by pat_completeness auto
termination
  by (relation "inv_image (less_than <*lex*> less_than)
     (\<lambda>x. case x of
        Inl (vh, sh, it, self, t, vis, p, fp, d, md) \<Rightarrow>
          (if d \<le> md then 2 * nat (21 - d) + 2 else 0, 0)
      | Inr (vh, sh, it, t, us, vis, p, fp, d) \<Rightarrow> (2 * nat (21 - d) + 1, length us))")
    auto

subsection \<open>\<open>check_connected_distance\<close>\<close>

text \<open>
  \<open>visited.union({self})\<close> builds a new set object, allocated at the end of the set
  store; the function returns the answer and the store it leaves behind.
  \<open>check_connected_distance_any\<close> is \<open>any\<close> over the generator: it takes the
  neighbours in turn, skips those in \<open>new_visited\<close>, and stops at the first
  \<open>True\<close>.
\<close>

function check_connected_distance ::
    "'a vertex list \<Rightarrow> iter \<Rightarrow> addr \<Rightarrow> 'a \<Rightarrow> addr \<Rightarrow> int \<Rightarrow> addr set list \<Rightarrow> bool \<times> addr set list"
  and check_connected_distance_any ::
    "'a vertex list \<Rightarrow> iter \<Rightarrow> 'a \<Rightarrow> addr list \<Rightarrow> addr \<Rightarrow> int \<Rightarrow> addr set list \<Rightarrow> bool \<times> addr set list"
where
  "check_connected_distance vh it self target_item visited d sh =
     (if item (vh ! self) = target_item \<and> d \<ge> 0 then (True, sh)
      else if d < 0 then (False, sh)
      else let new_visited = length sh;
               sh1 = sh @ [sh ! visited \<union> {self}]
           in check_connected_distance_any vh it target_item
                (it (neighbours (vh ! self)) (nbrs vh sh1 self)) new_visited d sh1)"
| "check_connected_distance_any vh it target_item [] new_visited d sh = (False, sh)"
| "check_connected_distance_any vh it target_item (u # us) new_visited d sh =
     (if u \<notin> sh ! new_visited then
        (case check_connected_distance vh it u target_item new_visited (d - 1) sh of
           (found, sh') \<Rightarrow>
             if found then (True, sh')
             else check_connected_distance_any vh it target_item us new_visited d sh')
      else check_connected_distance_any vh it target_item us new_visited d sh)"
  by pat_completeness auto
termination
  by (relation "inv_image (less_than <*lex*> less_than)
     (\<lambda>x. case x of
        Inl (vh, it, self, t, vis, d, sh) \<Rightarrow> (if d \<ge> 0 then 2 * nat (d + 1) + 2 else 0, 0)
      | Inr (vh, it, t, us, vis, d, sh) \<Rightarrow> (2 * nat (d + 1) + 1, length us))")
    auto

section \<open>Class \<open>Graph\<close>\<close>

definition Graph_init :: "'a graph" where
  "Graph_init = \<lparr>vertices = [], vertex_heap = [], set_heap = []\<rparr>"

text \<open>\<open>item in self._vertices\<close> and \<open>self._vertices[item]\<close>; the source reads
  the dictionary only after the membership test.\<close>

definition has_vertex :: "'a graph \<Rightarrow> 'a \<Rightarrow> bool" where
  "has_vertex g i = (map_of (vertices g) i \<noteq> None)"

definition vertex_of :: "'a graph \<Rightarrow> 'a \<Rightarrow> addr" where
  "vertex_of g i = the (map_of (vertices g) i)"

text \<open>\<open>_Vertex(item, set())\<close> allocates the set, then the vertex; the assignment
  to the dictionary replaces the entry of a key that is already there.\<close>

definition add_vertex :: "'a graph \<Rightarrow> 'a \<Rightarrow> 'a graph" where
  "add_vertex g i =
     \<lparr>vertices = AList.update i (length (vertex_heap g)) (vertices g),
      vertex_heap = vertex_heap g @ [\<lparr>item = i, neighbours = length (set_heap g)\<rparr>],
      set_heap = set_heap g @ [{}]\<rparr>"

text \<open>The result is the exception raised, if any, and the graph the call leaves
  behind.\<close>

definition add_edge :: "'a graph \<Rightarrow> 'a \<Rightarrow> 'a \<Rightarrow> (error + unit) \<times> 'a graph" where
  "add_edge g item1 item2 =
     (if has_vertex g item1 \<and> has_vertex g item2 then
        let v1 = vertex_of g item1;
            v2 = vertex_of g item2;
            sh1 = set_add (set_heap g) (neighbours (vertex_heap g ! v1)) v2;
            sh2 = set_add sh1 (neighbours (vertex_heap g ! v2)) v1
        in (Inr (), g\<lparr>set_heap := sh2\<rparr>)
      else (Inl ValueError, g))"

definition adjacent :: "'a graph \<Rightarrow> 'a \<Rightarrow> 'a \<Rightarrow> bool" where
  "adjacent g item1 item2 =
     (if has_vertex g item1 \<and> has_vertex g item2 then
        let v2 = vertex_of g item2
        in (\<exists>u \<in> nbrs (vertex_heap g) (set_heap g) v2. item (vertex_heap g ! u) = item1)
      else False)"

definition list_neighbours :: "'a graph \<Rightarrow> iter \<Rightarrow> 'a \<Rightarrow> 'a list option" where
  "list_neighbours g it i =
     (if has_vertex g i then
        let v = vertex_of g i
        in Some (map (\<lambda>u. item (vertex_heap g ! u))
                  (it (neighbours (vertex_heap g ! v)) (nbrs (vertex_heap g) (set_heap g) v)))
      else None)"

definition num_edges :: "'a graph \<Rightarrow> nat" where
  "num_edges g =
     sum_list (map (\<lambda>u. card (nbrs (vertex_heap g) (set_heap g) (vertex_of g u)))
                (map fst (vertices g))) div 2"

text \<open>\<open>max\<close> of an empty list raises \<open>ValueError\<close>.\<close>

definition max_degree :: "'a graph \<Rightarrow> error + nat" where
  "max_degree g =
     (let degrees = map (\<lambda>u. card (nbrs (vertex_heap g) (set_heap g) (vertex_of g u)))
                      (map fst (vertices g))
      in if degrees = [] then Inl ValueError else Inr (fold max degrees (degrees ! 0)))"

text \<open>\<open>set()\<close> allocates the visited set at the end of the set store.\<close>

definition connected :: "'a graph \<Rightarrow> iter \<Rightarrow> 'a \<Rightarrow> 'a \<Rightarrow> bool \<times> 'a graph" where
  "connected g it item1 item2 =
     (if has_vertex g item1 \<and> has_vertex g item2 then
        let v1 = vertex_of g item1;
            visited = length (set_heap g)
        in case check_connected (vertex_heap g) it v1 item2 visited 0 (set_heap g @ [{}]) of
             (r, sh) \<Rightarrow> (r, g\<lparr>set_heap := sh\<rparr>)
      else (False, g))"

definition connected_path :: "'a graph \<Rightarrow> iter \<Rightarrow> 'a \<Rightarrow> 'a \<Rightarrow> int \<Rightarrow> 'a list list option" where
  "connected_path g it item1 item2 max_depth =
     (if has_vertex g item1 \<and> has_vertex g item2 then
        let v1 = vertex_of g item1
        in if max_depth \<le> 20 then
             fst (check_connected_path (vertex_heap g) (set_heap g) it v1 item2 [] [] [] 0 max_depth)
           else
             fst (check_connected_path (vertex_heap g) (set_heap g) it v1 item2 [] [] [] 0 20)
      else None)"

definition shortest_path :: "'a graph \<Rightarrow> iter \<Rightarrow> 'a \<Rightarrow> 'a \<Rightarrow> 'a list option" where
  "shortest_path g it item1 item2 =
     (case connected_path g it item1 item2 20 of
        None \<Rightarrow> None
      | Some paths \<Rightarrow>
          if paths = [] then None
          else Some (fold (\<lambda>p min_path. if length p < length min_path then p else min_path)
                       paths (paths ! 0)))"

definition connected_distance :: "'a graph \<Rightarrow> iter \<Rightarrow> 'a \<Rightarrow> 'a \<Rightarrow> int \<Rightarrow> bool \<times> 'a graph" where
  "connected_distance g it item1 item2 d =
     (if d > 20 then (False, g)
      else if has_vertex g item1 \<and> has_vertex g item2 then
        let v1 = vertex_of g item1;
            visited = length (set_heap g)
        in case check_connected_distance (vertex_heap g) it v1 item2 visited d (set_heap g @ [{}]) of
             (r, sh) \<Rightarrow> (r, g\<lparr>set_heap := sh\<rparr>)
      else (False, g))"

section \<open>Graphs built by \<open>add_vertex\<close> and \<open>add_edge\<close>\<close>

text \<open>
  A graph starts empty and changes by calls of \<open>add_vertex\<close> and \<open>add_edge\<close>
  only (\<open>read_file\<close> makes exactly such calls). \<open>built allowed g\<close> says that
  \<open>g\<close> is reached from the empty graph by calls that \<open>allowed\<close> admits in the
  state they are made in; a call of \<open>add_edge\<close> that raises leaves the state it
  found. Three choices of \<open>allowed\<close> are used: every call; the calls that respect the
  precondition of \<open>add_vertex\<close> (the item is not in the graph); the calls that
  respect the preconditions of both methods.
\<close>

datatype 'a call = Add_vertex 'a | Add_edge 'a 'a

fun exec_call :: "'a graph \<Rightarrow> 'a call \<Rightarrow> 'a graph" where
  "exec_call g (Add_vertex i) = add_vertex g i"
| "exec_call g (Add_edge i j) = snd (add_edge g i j)"

inductive built :: "('a graph \<Rightarrow> 'a call \<Rightarrow> bool) \<Rightarrow> 'a graph \<Rightarrow> bool"
  for allowed :: "'a graph \<Rightarrow> 'a call \<Rightarrow> bool"
where
  init: "built allowed Graph_init"
| step: "built allowed g \<Longrightarrow> allowed g c \<Longrightarrow> built allowed (exec_call g c)"

fun any_call :: "'a graph \<Rightarrow> 'a call \<Rightarrow> bool" where
  "any_call g c = True"

fun new_vertex_only :: "'a graph \<Rightarrow> 'a call \<Rightarrow> bool" where
  "new_vertex_only g (Add_vertex i) = (\<not> has_vertex g i)"
| "new_vertex_only g (Add_edge i j) = True"

fun preconditions :: "'a graph \<Rightarrow> 'a call \<Rightarrow> bool" where
  "preconditions g (Add_vertex i) = (\<not> has_vertex g i)"
| "preconditions g (Add_edge i j) = (i \<noteq> j \<and> has_vertex g i \<and> has_vertex g j)"

fun run :: "'a graph \<Rightarrow> 'a call list \<Rightarrow> 'a graph" where
  "run g [] = g"
| "run g (c # cs) = run (exec_call g c) cs"

fun calls_allowed :: "('a graph \<Rightarrow> 'a call \<Rightarrow> bool) \<Rightarrow> 'a graph \<Rightarrow> 'a call list \<Rightarrow> bool" where
  "calls_allowed allowed g [] = True"
| "calls_allowed allowed g (c # cs) = (allowed g c \<and> calls_allowed allowed (exec_call g c) cs)"

text \<open>
  What holds of every graph: a key of the dictionary maps to a vertex holding that key;
  a vertex refers to a finite set of vertices; no two vertices share a neighbour set.
\<close>

definition keys_ok :: "'a graph \<Rightarrow> bool" where
  "keys_ok g = (\<forall>k v. map_of (vertices g) k = Some v \<longrightarrow>
     v < length (vertex_heap g) \<and> item (vertex_heap g ! v) = k)"

definition refs_ok :: "'a graph \<Rightarrow> bool" where
  "refs_ok g = (\<forall>v < length (vertex_heap g).
     neighbours (vertex_heap g ! v) < length (set_heap g) \<and>
     finite (nbrs (vertex_heap g) (set_heap g) v) \<and>
     (\<forall>u \<in> nbrs (vertex_heap g) (set_heap g) v. u < length (vertex_heap g)))"

definition sets_owned :: "'a graph \<Rightarrow> bool" where
  "sets_owned g = (\<forall>v < length (vertex_heap g). \<forall>w < length (vertex_heap g).
     neighbours (vertex_heap g ! v) = neighbours (vertex_heap g ! w) \<longrightarrow> v = w)"

definition graph_ok :: "'a graph \<Rightarrow> bool" where
  "graph_ok g = (keys_ok g \<and> refs_ok g \<and> sets_owned g)"

text \<open>The neighbour relation is symmetric; no vertex is its own neighbour; every
  vertex object is the one its item maps to (no vertex has been replaced).\<close>

definition nbrs_symmetric :: "'a graph \<Rightarrow> bool" where
  "nbrs_symmetric g = (\<forall>v < length (vertex_heap g).
     \<forall>u \<in> nbrs (vertex_heap g) (set_heap g) v. v \<in> nbrs (vertex_heap g) (set_heap g) u)"

definition no_self_loops :: "'a graph \<Rightarrow> bool" where
  "no_self_loops g = (\<forall>v < length (vertex_heap g). v \<notin> nbrs (vertex_heap g) (set_heap g) v)"

definition no_orphans :: "'a graph \<Rightarrow> bool" where
  "no_orphans g = (\<forall>v < length (vertex_heap g).
     map_of (vertices g) (item (vertex_heap g ! v)) = Some v)"

abbreviation nbrs_of :: "'a graph \<Rightarrow> addr \<Rightarrow> addr set" where
  "nbrs_of g v \<equiv> nbrs (vertex_heap g) (set_heap g) v"

text \<open>Small graphs for the examples.\<close>

definition edge_graph :: "nat graph" where
  "edge_graph = run Graph_init [Add_vertex 0, Add_vertex 1, Add_edge 0 1]"

definition two_vertices :: "nat graph" where
  "two_vertices = run Graph_init [Add_vertex 0, Add_vertex 1]"

definition overwritten_graph :: "nat graph" where
  "overwritten_graph = run Graph_init [Add_vertex 0, Add_vertex 1, Add_edge 0 1, Add_vertex 0]"

text \<open>
  The specification's measure of likeness: the number of positions, over the overlapping
  length, at which two paths hold the same item.
\<close>

definition matching_positions :: "'a list \<Rightarrow> 'a list \<Rightarrow> nat" where
  "matching_positions xs ys = length (filter (\<lambda>(x, y). x = y) (zip xs ys))"

definition hexagon :: "nat graph" where
  "hexagon = run Graph_init [Add_vertex 0, Add_vertex 1, Add_vertex 2, Add_vertex 3, Add_vertex 4,
     Add_vertex 5, Add_edge 0 1, Add_edge 1 2, Add_edge 2 5, Add_edge 0 3, Add_edge 3 4, Add_edge 4 5]"

definition one_vertex :: "nat graph" where
  "one_vertex = run Graph_init [Add_vertex 0]"

section \<open>Paths in a graph\<close>





text \<open>
  What the proofs about \<open>check_connected\<close> keep track of. \<open>search_ctx\<close>: the
  neighbour sets are finite sets of vertices, and the iteration order lists exactly the
  elements of a neighbour set. \<open>store_view vh N vis sh\<close>: in the set store \<open>sh\<close>
  the visited set at \<open>vis\<close> is no vertex's neighbour set, and the neighbour sets are
  those of \<open>N\<close>. \<open>nbrs_view\<close>: every vertex refers to a set of the store, and
  the neighbour sets are those of \<open>N\<close>. \<open>found_path\<close>: a simple path of bounded
  length, outside the visited vertices, to a vertex holding the target.
  \<open>explored\<close>: every vertex visited since \<open>V\<close> does not hold the target and
  has all its neighbours visited.
\<close>

definition search_ctx :: "'a vertex list \<Rightarrow> iter \<Rightarrow> (addr \<Rightarrow> addr set) \<Rightarrow> bool" where
  "search_ctx vh it N =
     ((\<forall>v < length vh. finite (N v) \<and> (\<forall>u \<in> N v. u < length vh))
      \<and> (\<forall>s. \<forall>v < length vh. set (it s (N v)) = N v))"

definition store_view :: "'a vertex list \<Rightarrow> (addr \<Rightarrow> addr set) \<Rightarrow> addr \<Rightarrow> addr set list \<Rightarrow> bool" where
  "store_view vh N vis sh =
     (vis < length sh \<and> (\<forall>v < length vh. neighbours (vh ! v) \<noteq> vis \<and> nbrs vh sh v = N v))"

definition nbrs_view :: "'a vertex list \<Rightarrow> (addr \<Rightarrow> addr set) \<Rightarrow> addr set list \<Rightarrow> bool" where
  "nbrs_view vh N sh = (\<forall>v < length vh. neighbours (vh ! v) < length sh \<and> nbrs vh sh v = N v)"




section \<open>The queries of a graph\<close>

text \<open>
  The eight query methods of \<open>Graph\<close>, as one operation on the state of the program:
  \<open>exec_query g it q\<close> is the answer of the query \<open>q\<close> and the graph the call
  leaves behind. \<open>adjacent\<close>, \<open>list_neighbours\<close>, \<open>num_edges\<close>,
  \<open>max_degree\<close>, \<open>connected_path\<close> and \<open>shortest_path\<close> assign to no
  field and call no method that changes a dictionary, a vertex or a set (the enumeration
  changes its three lists, which are values of the call), so they leave the graph they
  were given; \<open>connected\<close> and \<open>connected_distance\<close> leave the set store their
  search has written to.
\<close>

datatype 'a query =
    Adjacent 'a 'a
  | List_neighbours 'a
  | Num_edges
  | Max_degree
  | Connected 'a 'a
  | Connected_path 'a 'a int
  | Shortest_path 'a 'a
  | Connected_distance 'a 'a int

datatype 'a answer =
    Truth bool
  | Items "'a list option"
  | Count nat
  | Degree "error + nat"
  | Paths "'a list list option"

fun exec_query :: "'a graph \<Rightarrow> iter \<Rightarrow> 'a query \<Rightarrow> 'a answer \<times> 'a graph" where
  "exec_query g it (Adjacent a b) = (Truth (adjacent g a b), g)"
| "exec_query g it (List_neighbours a) = (Items (list_neighbours g it a), g)"
| "exec_query g it Num_edges = (Count (num_edges g), g)"
| "exec_query g it Max_degree = (Degree (max_degree g), g)"
| "exec_query g it (Connected a b) = (case connected g it a b of (r, g') \<Rightarrow> (Truth r, g'))"
| "exec_query g it (Connected_path a b max_depth) = (Paths (connected_path g it a b max_depth), g)"
| "exec_query g it (Shortest_path a b) = (Items (shortest_path g it a b), g)"
| "exec_query g it (Connected_distance a b d) =
     (case connected_distance g it a b d of (r, g') \<Rightarrow> (Truth r, g'))"

text \<open>\<open>extends_graph g g'\<close>: \<open>g'\<close> has the dictionary and the vertices of
  \<open>g\<close>, and its set store is that of \<open>g\<close> followed by further sets.\<close>

definition extends_graph :: "'a graph \<Rightarrow> 'a graph \<Rightarrow> bool" where
  "extends_graph g g' =
     (vertices g' = vertices g \<and> vertex_heap g' = vertex_heap g
      \<and> take (length (set_heap g)) (set_heap g') = set_heap g)"

section \<open>Lemmas on building graphs\<close>

lemma has_vertex_iff: "has_vertex g i \<longleftrightarrow> (\<exists>v. map_of (vertices g) i = Some v)"
  by (simp add: has_vertex_def)

lemma vertex_of_Some: "map_of (vertices g) i = Some v \<Longrightarrow> vertex_of g i = v"
  by (simp add: vertex_of_def)

lemma has_vertex_lookup: "has_vertex g i \<Longrightarrow> map_of (vertices g) i = Some (vertex_of g i)"
  by (auto simp: has_vertex_def vertex_of_def)

lemma keys_okD:
  "keys_ok g \<Longrightarrow> has_vertex g i \<Longrightarrow>
     vertex_of g i < length (vertex_heap g) \<and> item (vertex_heap g ! vertex_of g i) = i"
proof -
  assume k: "keys_ok g" and h: "has_vertex g i"
  have "map_of (vertices g) i = Some (vertex_of g i)"
    using h by (rule has_vertex_lookup)
  with k show ?thesis
    unfolding keys_ok_def by simp
qed

lemma add_vertex_fields:
  "vertices (add_vertex g i) = AList.update i (length (vertex_heap g)) (vertices g)"
  "vertex_heap (add_vertex g i) = vertex_heap g @ [\<lparr>item = i, neighbours = length (set_heap g)\<rparr>]"
  "set_heap (add_vertex g i) = set_heap g @ [{}]"
  by (simp_all add: add_vertex_def)

lemma map_of_add_vertex:
  "map_of (vertices (add_vertex g i)) k = (if k = i then Some (length (vertex_heap g)) else map_of (vertices g) k)"
  by (simp add: add_vertex_fields update_conv')

lemma nbrs_append_old:
  "refs_ok g \<Longrightarrow> v < length (vertex_heap g) \<Longrightarrow>
     nbrs (vertex_heap g @ xs) (set_heap g @ ys) v = nbrs (vertex_heap g) (set_heap g) v"
  by (simp add: nbrs_def refs_ok_def nth_append)

lemma nbrs_append_new:
  "nbrs (vh @ [\<lparr>item = i, neighbours = length sh\<rparr>]) (sh @ [S]) (length vh) = S"
  by (simp add: nbrs_def)

lemma add_edge_raises:
  "\<not> (has_vertex g i \<and> has_vertex g j) \<Longrightarrow> add_edge g i j = (Inl ValueError, g)"
  by (auto simp add: add_edge_def)

lemma add_edge_fields:
  "vertices (snd (add_edge g i j)) = vertices g"
  "vertex_heap (snd (add_edge g i j)) = vertex_heap g"
  "length (set_heap (snd (add_edge g i j))) = length (set_heap g)"
  by (simp_all add: add_edge_def set_add_def Let_def)

lemma add_edge_set_heap:
  "has_vertex g i \<Longrightarrow> has_vertex g j \<Longrightarrow>
     set_heap (snd (add_edge g i j)) =
       set_add (set_add (set_heap g) (neighbours (vertex_heap g ! vertex_of g i)) (vertex_of g j))
         (neighbours (vertex_heap g ! vertex_of g j)) (vertex_of g i)"
  by (simp add: add_edge_def Let_def)

lemma nbrs_add_edge:
  assumes "refs_ok g" "sets_owned g" "keys_ok g" "has_vertex g i" "has_vertex g j"
    and w: "w < length (vertex_heap g)"
  shows "nbrs (vertex_heap g) (set_heap (snd (add_edge g i j))) w =
           (if w = vertex_of g j then insert (vertex_of g i) else id)
             ((if w = vertex_of g i then insert (vertex_of g j) else id)
                (nbrs (vertex_heap g) (set_heap g) w))"
proof -
  define vh where "vh = vertex_heap g"
  define sh where "sh = set_heap g"
  define v1 where "v1 = vertex_of g i"
  define v2 where "v2 = vertex_of g j"
  let ?s = "\<lambda>v. neighbours (vh ! v)"
  have v1: "v1 < length vh"
    using keys_okD[OF assms(3) assms(4)] by (simp add: vh_def v1_def)
  have v2: "v2 < length vh"
    using keys_okD[OF assms(3) assms(5)] by (simp add: vh_def v2_def)
  have w': "w < length vh"
    using w by (simp add: vh_def)
  have r: "\<And>v. v < length vh \<Longrightarrow> ?s v < length sh"
    using assms(1) by (simp add: refs_ok_def vh_def sh_def)
  have o: "\<And>v u. v < length vh \<Longrightarrow> u < length vh \<Longrightarrow> (?s v = ?s u) = (v = u)"
    using assms(2) by (auto simp add: sets_owned_def vh_def)
  have "set_add (set_add sh (?s v1) v2) (?s v2) v1 ! ?s w =
          (if w = v2 then insert v1 else id) ((if w = v1 then insert v2 else id) (sh ! ?s w))"
    using r[OF v1] r[OF v2] r[OF w']
    by (auto simp add: set_add_def nth_list_update o[OF v1 w'] o[OF v2 w'] o[OF v2 v1] o[OF v1 v2]
        o[OF w' v1] o[OF w' v2])
  then show ?thesis
    using add_edge_set_heap[OF assms(4,5)]
    by (simp add: nbrs_def vh_def sh_def v1_def v2_def)
qed

lemma graph_ok_init: "graph_ok Graph_init"
  by (simp add: graph_ok_def keys_ok_def refs_ok_def sets_owned_def Graph_init_def)

lemma keys_ok_add_vertex:
  assumes "keys_ok g"
  shows "keys_ok (add_vertex g i)"
  unfolding keys_ok_def
proof (intro allI impI)
  fix k v
  assume l: "map_of (vertices (add_vertex g i)) k = Some v"
  consider (new) "k = i" | (old) "k \<noteq> i"
    by blast
  then show "v < length (vertex_heap (add_vertex g i)) \<and> item (vertex_heap (add_vertex g i) ! v) = k"
  proof cases
    case new
    then have "v = length (vertex_heap g)"
      using l by (simp add: map_of_add_vertex)
    then show ?thesis
      using new by (simp add: add_vertex_fields)
  next
    case old
    then have "map_of (vertices g) k = Some v"
      using l by (simp add: map_of_add_vertex)
    then have "v < length (vertex_heap g) \<and> item (vertex_heap g ! v) = k"
      using assms by (simp add: keys_ok_def)
    then show ?thesis
      by (simp add: add_vertex_fields nth_append)
  qed
qed

lemma refs_ok_add_vertex:
  assumes "refs_ok g"
  shows "refs_ok (add_vertex g i)"
  unfolding refs_ok_def
proof (intro allI impI)
  fix v
  assume "v < length (vertex_heap (add_vertex g i))"
  then consider (old) "v < length (vertex_heap g)" | (new) "v = length (vertex_heap g)"
    by (auto simp add: add_vertex_fields less_Suc_eq)
  then show "neighbours (vertex_heap (add_vertex g i) ! v) < length (set_heap (add_vertex g i)) \<and>
      finite (nbrs (vertex_heap (add_vertex g i)) (set_heap (add_vertex g i)) v) \<and>
      (\<forall>u\<in>nbrs (vertex_heap (add_vertex g i)) (set_heap (add_vertex g i)) v.
          u < length (vertex_heap (add_vertex g i)))"
  proof cases
    case old
    have "neighbours (vertex_heap g ! v) < length (set_heap g)"
      "finite (nbrs (vertex_heap g) (set_heap g) v)"
      "\<forall>u\<in>nbrs (vertex_heap g) (set_heap g) v. u < length (vertex_heap g)"
      using assms old by (simp_all add: refs_ok_def)
    then show ?thesis
      using old by (simp add: add_vertex_fields nbrs_append_old[OF assms old] nth_append less_Suc_eq)
  next
    case new
    show ?thesis
      unfolding new by (simp add: add_vertex_fields nbrs_append_new)
  qed
qed

lemma sets_owned_add_vertex:
  assumes "refs_ok g" "sets_owned g"
  shows "sets_owned (add_vertex g i)"
proof -
  have r0: "neighbours (vertex_heap g ! v) < length (set_heap g)"
    if "v < length (vertex_heap g)" for v
    using assms(1) that by (simp add: refs_ok_def)
  have r: "neighbours (vertex_heap g ! v) \<noteq> length (set_heap g)"
      "length (set_heap g) \<noteq> neighbours (vertex_heap g ! v)"
    if "v < length (vertex_heap g)" for v
    using r0[OF that] by simp_all
  have o: "(neighbours (vertex_heap g ! v) = neighbours (vertex_heap g ! w)) = (v = w)"
    if "v < length (vertex_heap g)" "w < length (vertex_heap g)" for v w
    using assms(2) that by (auto simp add: sets_owned_def)
  show ?thesis
    unfolding sets_owned_def add_vertex_fields
    by (auto simp add: nth_append less_Suc_eq r o)
qed

lemma graph_ok_add_vertex: "graph_ok g \<Longrightarrow> graph_ok (add_vertex g i)"
  by (simp add: graph_ok_def keys_ok_add_vertex refs_ok_add_vertex sets_owned_add_vertex)

lemma graph_ok_add_edge:
  assumes "graph_ok g"
  shows "graph_ok (snd (add_edge g i j))"
proof -
  consider (both) "has_vertex g i \<and> has_vertex g j" | (raise) "\<not> (has_vertex g i \<and> has_vertex g j)"
    by blast
  then show ?thesis
  proof cases
    case raise
    then show ?thesis
      using assms by (simp add: add_edge_raises)
  next
    case both
    have ok: "refs_ok g" "sets_owned g" "keys_ok g"
      using assms by (simp_all add: graph_ok_def)
    have hi: "has_vertex g i" and hj: "has_vertex g j"
      using both by simp_all
    have vi: "vertex_of g i < length (vertex_heap g)" and vj: "vertex_of g j < length (vertex_heap g)"
      using keys_okD[OF ok(3) hi] keys_okD[OF ok(3) hj] by simp_all
    have k: "keys_ok (snd (add_edge g i j))"
      using ok(3) by (simp add: keys_ok_def add_edge_fields)
    have o: "sets_owned (snd (add_edge g i j))"
      using ok(2) by (simp add: sets_owned_def add_edge_fields)
    have r: "refs_ok (snd (add_edge g i j))"
      unfolding refs_ok_def add_edge_fields
    proof (intro allI impI)
      fix v
      assume v: "v < length (vertex_heap g)"
      have "neighbours (vertex_heap g ! v) < length (set_heap g)"
        "finite (nbrs (vertex_heap g) (set_heap g) v)"
        "\<forall>u\<in>nbrs (vertex_heap g) (set_heap g) v. u < length (vertex_heap g)"
        using ok(1) v by (simp_all add: refs_ok_def)
      then show "neighbours (vertex_heap g ! v) < length (set_heap g) \<and>
          finite (nbrs (vertex_heap g) (set_heap (snd (add_edge g i j))) v) \<and>
          (\<forall>u\<in>nbrs (vertex_heap g) (set_heap (snd (add_edge g i j))) v. u < length (vertex_heap g))"
        using vi vj by (auto simp add: nbrs_add_edge[OF ok hi hj v])
    qed
    show ?thesis
      using k o r by (simp add: graph_ok_def)
  qed
qed

lemma graph_ok_exec_call: "graph_ok g \<Longrightarrow> graph_ok (exec_call g c)"
  by (cases c) (simp_all add: graph_ok_add_vertex graph_ok_add_edge)

lemma built_graph_ok: "built allowed g \<Longrightarrow> graph_ok g"
  by (induction rule: built.induct) (simp_all add: graph_ok_init graph_ok_exec_call)

lemma built_mono:
  assumes "built allowed g" and "\<And>g c. allowed g c \<Longrightarrow> allowed' g c"
  shows "built allowed' g"
  using assms(1)
proof (induction rule: built.induct)
  case init
  show ?case by (rule built.init)
next
  case (step g c)
  then show ?case
    using assms(2) built.step by blast
qed

lemma built_run:
  "built allowed g \<Longrightarrow> calls_allowed allowed g cs \<Longrightarrow> built allowed (run g cs)"
  by (induction cs arbitrary: g) (auto intro: built.step)

lemma nbrs_of_add_edge:
  assumes "graph_ok g" "has_vertex g i" "has_vertex g j" "w < length (vertex_heap g)"
  shows "nbrs_of (snd (add_edge g i j)) w =
           (if w = vertex_of g j then insert (vertex_of g i) else id)
             ((if w = vertex_of g i then insert (vertex_of g j) else id) (nbrs_of g w))"
  using nbrs_add_edge[of g i j w] assms by (simp add: graph_ok_def add_edge_fields)

lemma nbrs_of_bound:
  "graph_ok g \<Longrightarrow> v < length (vertex_heap g) \<Longrightarrow> u \<in> nbrs_of g v \<Longrightarrow> u < length (vertex_heap g)"
  by (simp add: graph_ok_def refs_ok_def)

lemma nbrs_of_add_vertex:
  assumes "graph_ok g" "v < length (vertex_heap g)"
  shows "nbrs_of (add_vertex g i) v = nbrs_of g v"
  using assms by (simp add: add_vertex_fields nbrs_append_old graph_ok_def)

lemma nbrs_of_add_vertex_new: "nbrs_of (add_vertex g i) (length (vertex_heap g)) = {}"
  by (simp add: add_vertex_fields nbrs_append_new)

lemma length_add_vertex: "length (vertex_heap (add_vertex g i)) = Suc (length (vertex_heap g))"
  by (simp add: add_vertex_fields)

lemma nbrs_symmetric_add_vertex:
  assumes "graph_ok g" "nbrs_symmetric g"
  shows "nbrs_symmetric (add_vertex g i)"
  unfolding nbrs_symmetric_def length_add_vertex
proof (intro allI impI ballI)
  fix v u
  assume v: "v < Suc (length (vertex_heap g))" and u: "u \<in> nbrs_of (add_vertex g i) v"
  have old: "v < length (vertex_heap g)"
    using v u nbrs_of_add_vertex_new[of g i] by (auto simp add: less_Suc_eq)
  have u': "u \<in> nbrs_of g v"
    using u nbrs_of_add_vertex[OF assms(1) old] by simp
  have ub: "u < length (vertex_heap g)"
    using nbrs_of_bound[OF assms(1) old u'] .
  have "v \<in> nbrs_of g u"
    using assms(2) old u' by (simp add: nbrs_symmetric_def)
  then show "v \<in> nbrs_of (add_vertex g i) u"
    using nbrs_of_add_vertex[OF assms(1) ub] by simp
qed

lemma nbrs_symmetric_add_edge:
  assumes "graph_ok g" "nbrs_symmetric g"
  shows "nbrs_symmetric (snd (add_edge g i j))"
proof -
  consider (both) "has_vertex g i \<and> has_vertex g j" | (raise) "\<not> (has_vertex g i \<and> has_vertex g j)"
    by blast
  then show ?thesis
  proof cases
    case raise
    then show ?thesis
      using assms(2) by (simp add: add_edge_raises)
  next
    case both
    then have hi: "has_vertex g i" and hj: "has_vertex g j"
      by simp_all
    have k: "keys_ok g"
      using assms(1) by (simp add: graph_ok_def)
    have vi: "vertex_of g i < length (vertex_heap g)" and vj: "vertex_of g j < length (vertex_heap g)"
      using keys_okD[OF k hi] keys_okD[OF k hj] by simp_all
    show ?thesis
      unfolding nbrs_symmetric_def
    proof (intro allI impI ballI)
      fix v u
      assume "v < length (vertex_heap (snd (add_edge g i j)))"
        and u: "u \<in> nbrs_of (snd (add_edge g i j)) v"
      then have v: "v < length (vertex_heap g)"
        by (simp add: add_edge_fields)
      have ub: "u < length (vertex_heap g)"
        using u vi vj nbrs_of_bound[OF assms(1) v, of u]
        by (auto simp add: nbrs_of_add_edge[OF assms(1) hi hj v] split: if_splits)
      have s: "u \<in> nbrs_of g v \<Longrightarrow> v \<in> nbrs_of g u"
        using assms(2) v by (simp add: nbrs_symmetric_def)
      show "v \<in> nbrs_of (snd (add_edge g i j)) u"
        using u s
        by (auto simp add: nbrs_of_add_edge[OF assms(1) hi hj v]
            nbrs_of_add_edge[OF assms(1) hi hj ub] split: if_splits)
    qed
  qed
qed

lemma built_symmetric: "built allowed g \<Longrightarrow> nbrs_symmetric g"
proof (induction rule: built.induct)
  case init
  show ?case by (simp add: nbrs_symmetric_def Graph_init_def)
next
  case (step g c)
  have "graph_ok g"
    using step.hyps(1) by (rule built_graph_ok)
  then show ?case
    using step.IH by (cases c) (simp_all add: nbrs_symmetric_add_vertex nbrs_symmetric_add_edge)
qed

lemma no_orphans_add_vertex:
  assumes "no_orphans g" "\<not> has_vertex g i"
  shows "no_orphans (add_vertex g i)"
  unfolding no_orphans_def length_add_vertex
proof (intro allI impI)
  fix v
  assume "v < Suc (length (vertex_heap g))"
  then consider (old) "v < length (vertex_heap g)" | (new) "v = length (vertex_heap g)"
    by (auto simp add: less_Suc_eq)
  then show "map_of (vertices (add_vertex g i)) (item (vertex_heap (add_vertex g i) ! v)) = Some v"
  proof cases
    case old
    have l: "map_of (vertices g) (item (vertex_heap g ! v)) = Some v"
      using assms(1) old by (simp add: no_orphans_def)
    then have "item (vertex_heap g ! v) \<noteq> i"
      using assms(2) by (auto simp add: has_vertex_def)
    then show ?thesis
      using l old by (simp add: map_of_add_vertex) (simp add: add_vertex_fields nth_append)
  next
    case new
    show ?thesis
      unfolding new by (simp add: map_of_add_vertex) (simp add: add_vertex_fields)
  qed
qed

lemma no_orphans_add_edge: "no_orphans g \<Longrightarrow> no_orphans (snd (add_edge g i j))"
  by (simp add: no_orphans_def add_edge_fields)

lemma built_no_orphans: "built new_vertex_only g \<Longrightarrow> no_orphans g"
proof (induction rule: built.induct)
  case init
  show ?case by (simp add: no_orphans_def Graph_init_def)
next
  case (step g c)
  then show ?case
    by (cases c) (simp_all add: no_orphans_add_vertex no_orphans_add_edge)
qed

lemma no_self_loops_add_vertex:
  assumes "graph_ok g" "no_self_loops g"
  shows "no_self_loops (add_vertex g i)"
  unfolding no_self_loops_def length_add_vertex
proof (intro allI impI)
  fix v
  assume "v < Suc (length (vertex_heap g))"
  then consider (old) "v < length (vertex_heap g)" | (new) "v = length (vertex_heap g)"
    by (auto simp add: less_Suc_eq)
  then show "v \<notin> nbrs_of (add_vertex g i) v"
  proof cases
    case old
    then show ?thesis
      using assms(2) nbrs_of_add_vertex[OF assms(1) old] by (simp add: no_self_loops_def)
  next
    case new
    show ?thesis
      unfolding new nbrs_of_add_vertex_new by simp
  qed
qed

lemma vertex_of_inj:
  assumes "keys_ok g" "has_vertex g i" "has_vertex g j" "i \<noteq> j"
  shows "vertex_of g i \<noteq> vertex_of g j"
  using keys_okD[OF assms(1,2)] keys_okD[OF assms(1,3)] assms(4) by auto

lemma no_self_loops_add_edge:
  assumes "graph_ok g" "no_self_loops g" "i \<noteq> j" "has_vertex g i" "has_vertex g j"
  shows "no_self_loops (snd (add_edge g i j))"
  unfolding no_self_loops_def
proof (intro allI impI)
  fix v
  assume "v < length (vertex_heap (snd (add_edge g i j)))"
  then have v: "v < length (vertex_heap g)"
    by (simp add: add_edge_fields)
  have k: "keys_ok g"
    using assms(1) by (simp add: graph_ok_def)
  have "v \<notin> nbrs_of g v"
    using assms(2) v by (simp add: no_self_loops_def)
  then show "v \<notin> nbrs_of (snd (add_edge g i j)) v"
    using vertex_of_inj[OF k assms(4,5,3)]
    by (auto simp add: nbrs_of_add_edge[OF assms(1,4,5) v])
qed

lemma built_no_self_loops: "built preconditions g \<Longrightarrow> no_self_loops g"
proof (induction rule: built.induct)
  case init
  show ?case by (simp add: no_self_loops_def Graph_init_def)
next
  case (step g c)
  have "graph_ok g"
    using step.hyps(1) by (rule built_graph_ok)
  then show ?case
    using step.IH step.hyps(2)
    by (cases c) (simp_all add: no_self_loops_add_vertex no_self_loops_add_edge)
qed

section \<open>Claims on building graphs\<close>

lemma adjacent_iff:
  assumes "graph_ok g" "no_orphans g" "has_vertex g a" "has_vertex g b"
  shows "adjacent g a b \<longleftrightarrow> vertex_of g a \<in> nbrs_of g (vertex_of g b)"
proof -
  have k: "keys_ok g"
    using assms(1) by (simp add: graph_ok_def)
  have vb: "vertex_of g b < length (vertex_heap g)"
    using keys_okD[OF k assms(4)] by simp
  have ia: "item (vertex_heap g ! vertex_of g a) = a"
    using keys_okD[OF k assms(3)] by simp
  have u: "u = vertex_of g a"
    if "u \<in> nbrs_of g (vertex_of g b)" "item (vertex_heap g ! u) = a" for u
  proof -
    have "u < length (vertex_heap g)"
      using nbrs_of_bound[OF assms(1) vb that(1)] .
    then have "map_of (vertices g) a = Some u"
      using assms(2) that(2) by (auto simp add: no_orphans_def)
    then show ?thesis
      by (simp add: vertex_of_def)
  qed
  show ?thesis
    using assms(3,4) ia u by (auto simp add: adjacent_def)
qed

subsection \<open>Claim C4\<close>

text \<open>
  C4, as amended. For every graph built by \<open>add_vertex\<close> calls whose item is not
  yet in the graph and by any \<open>add_edge\<close> calls, and all items \<open>a\<close>, \<open>b\<close>:
  \<open>adjacent(a, b) = adjacent(b, a)\<close>.
\<close>

theorem adjacent_symmetric:
  assumes "built new_vertex_only g"
  shows "adjacent g a b = adjacent g b a"
proof -
  have ok: "graph_ok g"
    using assms by (rule built_graph_ok)
  have no: "no_orphans g"
    using assms by (rule built_no_orphans)
  have sy: "nbrs_symmetric g"
    using assms by (rule built_symmetric)
  consider (both) "has_vertex g a \<and> has_vertex g b" | (absent) "\<not> (has_vertex g a \<and> has_vertex g b)"
    by blast
  then show ?thesis
  proof cases
    case absent
    then show ?thesis
      by (auto simp add: adjacent_def)
  next
    case both
    then have ha: "has_vertex g a" and hb: "has_vertex g b"
      by simp_all
    have k: "keys_ok g"
      using ok by (simp add: graph_ok_def)
    have va: "vertex_of g a < length (vertex_heap g)" and vb: "vertex_of g b < length (vertex_heap g)"
      using keys_okD[OF k ha] keys_okD[OF k hb] by simp_all
    have "vertex_of g a \<in> nbrs_of g (vertex_of g b) \<longleftrightarrow> vertex_of g b \<in> nbrs_of g (vertex_of g a)"
      using sy va vb unfolding nbrs_symmetric_def by blast
    then show ?thesis
      by (simp add: adjacent_iff[OF ok no ha hb] adjacent_iff[OF ok no hb ha])
  qed
qed

theorem adjacent_symmetric_witness:
  "built new_vertex_only edge_graph \<and> adjacent edge_graph 0 1 \<and> adjacent edge_graph 1 0"
proof -
  have b: "built new_vertex_only edge_graph"
    unfolding edge_graph_def by (rule built_run[OF built.init]) code_simp
  have "adjacent edge_graph 0 1"
    by code_simp
  then show ?thesis
    using adjacent_symmetric[OF b, of 0 1] b by simp
qed

text \<open>
  C4 as stated, for every graph built by \<open>add_vertex\<close> and \<open>add_edge\<close>, fails:
  after \<open>add_vertex(0); add_vertex(1); add_edge(0, 1); add_vertex(0)\<close> the dictionary
  maps 0 to a new vertex with no neighbours, while the set of vertex 1 still holds the
  replaced vertex, whose item is 0. So \<open>adjacent(0, 1)\<close> is true and
  \<open>adjacent(1, 0)\<close> is false.
\<close>

theorem adjacent_not_symmetric_after_overwrite:
  "\<not> (\<forall>g :: nat graph. built any_call g \<longrightarrow> (\<forall>a b. adjacent g a b = adjacent g b a))"
proof
  assume c: "\<forall>g :: nat graph. built any_call g \<longrightarrow> (\<forall>a b. adjacent g a b = adjacent g b a)"
  have b: "built any_call overwritten_graph"
    unfolding overwritten_graph_def by (rule built_run[OF built.init]) simp
  have "adjacent overwritten_graph 0 1 \<and> \<not> adjacent overwritten_graph 1 0"
    by code_simp
  then show False
    using c b by blast
qed

subsection \<open>Claim C5\<close>

text \<open>
  C5. Every graph reachable from the empty graph by \<open>add_vertex\<close> calls whose item
  is not already present and \<open>add_edge\<close> calls with two distinct, present items
  satisfies: every key of the vertex mapping maps to a vertex whose own item equals that
  key; the neighbour relation is symmetric; and no vertex is its own neighbour.
\<close>

theorem built_invariants:
  assumes "built preconditions g"
  shows "(\<forall>k. has_vertex g k \<longrightarrow>
            vertex_of g k < length (vertex_heap g) \<and> item (vertex_heap g ! vertex_of g k) = k)
       \<and> (\<forall>v < length (vertex_heap g). \<forall>u < length (vertex_heap g).
            u \<in> nbrs_of g v \<longleftrightarrow> v \<in> nbrs_of g u)
       \<and> (\<forall>v < length (vertex_heap g). v \<notin> nbrs_of g v)"
proof (intro conjI)
  have ok: "graph_ok g"
    using assms by (rule built_graph_ok)
  then have k: "keys_ok g"
    by (simp add: graph_ok_def)
  show "\<forall>k. has_vertex g k \<longrightarrow>
            vertex_of g k < length (vertex_heap g) \<and> item (vertex_heap g ! vertex_of g k) = k"
    using keys_okD[OF k] by simp
  have "nbrs_symmetric g"
    using assms by (rule built_symmetric)
  then show "\<forall>v < length (vertex_heap g). \<forall>u < length (vertex_heap g).
            u \<in> nbrs_of g v \<longleftrightarrow> v \<in> nbrs_of g u"
    unfolding nbrs_symmetric_def by blast
  have "no_self_loops g"
    using assms by (rule built_no_self_loops)
  then show "\<forall>v < length (vertex_heap g). v \<notin> nbrs_of g v"
    by (simp add: no_self_loops_def)
qed

theorem built_invariants_witness:
  "built preconditions edge_graph
   \<and> has_vertex edge_graph 0 \<and> vertex_of edge_graph 0 = 0 \<and> length (vertex_heap edge_graph) = 2
   \<and> item (vertex_heap edge_graph ! 0) = 0
   \<and> 1 \<in> nbrs_of edge_graph 0 \<and> 0 \<in> nbrs_of edge_graph 1
   \<and> 0 \<notin> nbrs_of edge_graph 0"
proof -
  have b: "built preconditions edge_graph"
    unfolding edge_graph_def by (rule built_run[OF built.init]) code_simp
  have e: "has_vertex edge_graph 0" "vertex_of edge_graph 0 = 0"
    "length (vertex_heap edge_graph) = 2" "1 \<in> nbrs_of edge_graph 0"
    by code_simp+
  show ?thesis
    using built_invariants[OF b] b e by auto
qed

subsection \<open>Claim C3\<close>

text \<open>
  C3. For every graph and all items \<open>item1 \<noteq> item2\<close>: \<open>add_edge(item1, item2)\<close>
  raises \<open>ValueError\<close> if and only if \<open>item1\<close> or \<open>item2\<close> is not a vertex
  of the graph, and when it raises, the graph is left unchanged; when both are present,
  the call returns normally, leaves the dictionary and the vertices as they are, adds
  each endpoint's vertex to the other's neighbour set, changes no other neighbour set,
  and is idempotent (a second call changes nothing).
\<close>

theorem add_edge_raises_iff_absent:
  assumes "graph_ok g" and "item1 \<noteq> item2"
  shows "(fst (add_edge g item1 item2) = Inl ValueError
            \<longleftrightarrow> \<not> has_vertex g item1 \<or> \<not> has_vertex g item2)
       \<and> (fst (add_edge g item1 item2) = Inl ValueError \<longrightarrow> snd (add_edge g item1 item2) = g)
       \<and> (has_vertex g item1 \<and> has_vertex g item2 \<longrightarrow>
            fst (add_edge g item1 item2) = Inr ()
          \<and> vertices (snd (add_edge g item1 item2)) = vertices g
          \<and> vertex_heap (snd (add_edge g item1 item2)) = vertex_heap g
          \<and> nbrs_of (snd (add_edge g item1 item2)) (vertex_of g item1)
               = insert (vertex_of g item2) (nbrs_of g (vertex_of g item1))
          \<and> nbrs_of (snd (add_edge g item1 item2)) (vertex_of g item2)
               = insert (vertex_of g item1) (nbrs_of g (vertex_of g item2))
          \<and> (\<forall>w < length (vertex_heap g). w \<noteq> vertex_of g item1 \<and> w \<noteq> vertex_of g item2 \<longrightarrow>
                nbrs_of (snd (add_edge g item1 item2)) w = nbrs_of g w)
          \<and> add_edge (snd (add_edge g item1 item2)) item1 item2
               = (Inr (), snd (add_edge g item1 item2)))"
proof (intro conjI impI)
  show "fst (add_edge g item1 item2) = Inl ValueError
            \<longleftrightarrow> \<not> has_vertex g item1 \<or> \<not> has_vertex g item2"
    by (auto simp add: add_edge_def Let_def)
next
  assume "fst (add_edge g item1 item2) = Inl ValueError"
  then show "snd (add_edge g item1 item2) = g"
    by (auto simp add: add_edge_def Let_def split: if_splits)
next
  assume both: "has_vertex g item1 \<and> has_vertex g item2"
  then have h1: "has_vertex g item1" and h2: "has_vertex g item2"
    by simp_all
  have k: "keys_ok g"
    using assms(1) by (simp add: graph_ok_def)
  have v1: "vertex_of g item1 < length (vertex_heap g)"
    and v2: "vertex_of g item2 < length (vertex_heap g)"
    using keys_okD[OF k h1] keys_okD[OF k h2] by simp_all
  have ne: "vertex_of g item1 \<noteq> vertex_of g item2"
    using vertex_of_inj[OF k h1 h2 assms(2)] .
  show "fst (add_edge g item1 item2) = Inr ()"
    using both by (simp add: add_edge_def Let_def)
  show "vertices (snd (add_edge g item1 item2)) = vertices g"
    by (simp add: add_edge_fields)
  show "vertex_heap (snd (add_edge g item1 item2)) = vertex_heap g"
    by (simp add: add_edge_fields)
  show n1: "nbrs_of (snd (add_edge g item1 item2)) (vertex_of g item1)
               = insert (vertex_of g item2) (nbrs_of g (vertex_of g item1))"
    using ne by (simp add: nbrs_of_add_edge[OF assms(1) h1 h2 v1])
  show n2: "nbrs_of (snd (add_edge g item1 item2)) (vertex_of g item2)
               = insert (vertex_of g item1) (nbrs_of g (vertex_of g item2))"
    using ne by (simp add: nbrs_of_add_edge[OF assms(1) h1 h2 v2])
  show "\<forall>w < length (vertex_heap g). w \<noteq> vertex_of g item1 \<and> w \<noteq> vertex_of g item2 \<longrightarrow>
                nbrs_of (snd (add_edge g item1 item2)) w = nbrs_of g w"
    by (simp add: nbrs_of_add_edge[OF assms(1) h1 h2])
  let ?g = "snd (add_edge g item1 item2)"
  have h1': "has_vertex ?g item1" and h2': "has_vertex ?g item2"
    using h1 h2 by (simp_all add: has_vertex_def add_edge_fields)
  have vo: "vertex_of ?g item1 = vertex_of g item1" "vertex_of ?g item2 = vertex_of g item2"
    by (simp_all add: vertex_of_def add_edge_fields)
  have m1: "vertex_of g item2 \<in> set_heap ?g ! neighbours (vertex_heap g ! vertex_of g item1)"
    using n1 by (simp add: nbrs_def add_edge_fields)
  have m2: "vertex_of g item1 \<in> set_heap ?g ! neighbours (vertex_heap g ! vertex_of g item2)"
    using n2 by (simp add: nbrs_def add_edge_fields)
  have "set_heap (snd (add_edge ?g item1 item2)) = set_heap ?g"
    using m1 m2
    by (simp add: add_edge_set_heap[OF h1' h2'] vo add_edge_fields set_add_def insert_absorb)
  then show "add_edge ?g item1 item2 = (Inr (), ?g)"
    using h1' h2' by (simp add: add_edge_def Let_def)
qed

theorem add_edge_raises_iff_absent_witness:
  "graph_ok two_vertices \<and> (0::nat) \<noteq> 1
   \<and> has_vertex two_vertices 0 \<and> has_vertex two_vertices 1
   \<and> fst (add_edge two_vertices 0 1) = Inr ()
   \<and> nbrs_of (snd (add_edge two_vertices 0 1)) 0 = {1}
   \<and> nbrs_of (snd (add_edge two_vertices 0 1)) 1 = {0}
   \<and> \<not> has_vertex two_vertices 2
   \<and> add_edge two_vertices 0 2 = (Inl ValueError, two_vertices)"
proof -
  have b: "built any_call two_vertices"
    unfolding two_vertices_def by (rule built_run[OF built.init]) simp
  have ok: "graph_ok two_vertices"
    using b by (rule built_graph_ok)
  have ne: "(0::nat) \<noteq> 1" "(0::nat) \<noteq> 2"
    by simp_all
  have e: "has_vertex two_vertices 0" "has_vertex two_vertices 1" "\<not> has_vertex two_vertices 2"
    "vertex_of two_vertices 0 = 0" "vertex_of two_vertices 1 = 1"
    "nbrs_of two_vertices 0 = {}" "nbrs_of two_vertices 1 = {}"
    by code_simp+
  show ?thesis
    using add_edge_raises_iff_absent[OF ok ne(1)] add_edge_raises_iff_absent[OF ok ne(2)] ok e
    by (auto simp add: prod_eq_iff)
qed

section \<open>The path enumeration\<close>

declare check_connected_path.simps [simp del]
declare check_connected.simps [simp del]
declare check_connected_distance.simps [simp del]

lemma check_connected_path_unfold:
  "check_connected_path vh sh it self t visited path final d md
     = (case (if d \<le> md
              then check_connected_path_loop vh sh it t (it (neighbours (vh ! self)) (nbrs vh sh self))
                     (visited @ [item (vh ! self)]) (path @ [item (vh ! self)])
                     (record_path (item (vh ! self)) t (path @ [item (vh ! self)]) final) d
              else (visited @ [item (vh ! self)], path @ [item (vh ! self)], final)) of
          (v2, p2, f2) \<Rightarrow> (if butlast p2 = [] then Some f2 else None, butlast v2, butlast p2, f2))"
  by (subst check_connected_path.simps) (simp only: Let_def)

lemma check_connected_path_stacks:
  "\<exists>f'. check_connected_path vh sh it self t visited path final d md
           = (if path = [] then Some f' else None, visited, path, f')"
  "\<exists>f'. check_connected_path_loop vh sh it t us visited path final d = (visited, path, f')"
proof (induction vh sh it self t visited path final d md and vh sh it t us visited path final d
    rule: check_connected_path_check_connected_path_loop.induct)
  case (1 vh sh it self target_item visited path final_path depth max_depth)
  define v1 where "v1 = visited @ [item (vh ! self)]"
  define p1 where "p1 = path @ [item (vh ! self)]"
  define f1 where "f1 = record_path (item (vh ! self)) target_item p1 final_path"
  define us where "us = it (neighbours (vh ! self)) (nbrs vh sh self)"
  note unfold = check_connected_path_unfold[of vh sh it self target_item visited path final_path
      depth max_depth, folded v1_def p1_def, folded f1_def us_def]
  consider (deep) "depth \<le> max_depth" | (cut) "\<not> depth \<le> max_depth"
    by blast
  then show ?case
  proof cases
    case deep
    have "\<exists>f'. check_connected_path_loop vh sh it target_item us v1 p1 f1 depth = (v1, p1, f')"
      using 1[OF refl refl deep] unfolding v1_def p1_def f1_def us_def .
    then obtain f2 where
      "check_connected_path_loop vh sh it target_item us v1 p1 f1 depth = (v1, p1, f2)"
      by blast
    then have "check_connected_path vh sh it self target_item visited path final_path depth max_depth
        = (if butlast p1 = [] then Some f2 else None, butlast v1, butlast p1, f2)"
      unfolding unfold using deep by simp
    then show ?thesis
      by (simp add: v1_def p1_def)
  next
    case cut
    then have "check_connected_path vh sh it self target_item visited path final_path depth max_depth
        = (if butlast p1 = [] then Some final_path else None, butlast v1, butlast p1, final_path)"
      unfolding unfold by simp
    then show ?thesis
      by (simp add: v1_def p1_def)
  qed
next
  case (2 vh sh it target_item visited path final_path depth)
  show ?case by simp
next
  case (3 vh sh it target_item i "is" visited path final_path depth)
  consider (new) "item (vh ! i) \<notin> set visited" | (seen) "\<not> item (vh ! i) \<notin> set visited"
    by blast
  then show ?case
  proof cases
    case new
    obtain f' where
      c: "check_connected_path vh sh it i target_item visited path final_path (depth + 1) 20
            = (if path = [] then Some f' else None, visited, path, f')"
      using 3(1)[OF new] by blast
    show ?thesis
      using 3(2)[OF new c[symmetric] refl refl] new c by simp
  next
    case seen
    then show ?thesis
      using 3(3)[OF seen] by simp
  qed
qed

text \<open>The results of a call, and of the loop over the neighbours.\<close>

lemma check_connected_path_final:
  "snd (snd (snd (check_connected_path vh sh it self t visited path final d md)))
     = (if d \<le> md
        then snd (snd (check_connected_path_loop vh sh it t
               (it (neighbours (vh ! self)) (nbrs vh sh self))
               (visited @ [item (vh ! self)]) (path @ [item (vh ! self)])
               (record_path (item (vh ! self)) t (path @ [item (vh ! self)]) final) d))
        else final)"
  by (simp add: check_connected_path_unfold case_prod_beta)

lemma check_connected_path_loop_Cons:
  "snd (snd (check_connected_path_loop vh sh it t (i # is) visited path final d))
     = (if item (vh ! i) \<notin> set visited
        then snd (snd (check_connected_path_loop vh sh it t is visited path
               (snd (snd (snd (check_connected_path vh sh it i t visited path final (d + 1) 20)))) d))
        else snd (snd (check_connected_path_loop vh sh it t is visited path final d)))"
proof -
  obtain f' where
    c: "check_connected_path vh sh it i t visited path final (d + 1) 20
          = (if path = [] then Some f' else None, visited, path, f')"
    using check_connected_path_stacks(1)[of vh sh it i t visited path final "d + 1" 20] by blast
  show ?thesis
    by (simp add: c)
qed

lemma record_path_cases:
  "record_path i t p f = f \<or> (record_path i t p f = f @ [p] \<and> i = t \<and> p \<notin> set f)"
  by (simp add: record_path_def Let_def)

lemma check_connected_path_results:
  "\<exists>added. snd (snd (snd (check_connected_path vh sh it self t visited path final d md)))
             = final @ added
         \<and> (\<forall>p \<in> set added. last p = t \<and> (\<exists>ys. p = path @ item (vh ! self) # ys))"
  "\<exists>added. snd (snd (check_connected_path_loop vh sh it t us visited path final d)) = final @ added
         \<and> (\<forall>p \<in> set added. last p = t \<and> (\<exists>x ys. p = path @ x # ys))"
proof (induction vh sh it self t visited path final d md and vh sh it t us visited path final d
    rule: check_connected_path_check_connected_path_loop.induct)
  case (1 vh sh it self t visited path final d md)
  define i where "i = item (vh ! self)"
  define f1 where "f1 = record_path i t (path @ [i]) final"
  consider (deep) "d \<le> md" | (cut) "\<not> d \<le> md"
    by blast
  then show ?case
  proof cases
    case cut
    then show ?thesis
      by (simp add: check_connected_path_final)
  next
    case deep
    obtain added where
      a: "snd (snd (check_connected_path_loop vh sh it t (it (neighbours (vh ! self)) (nbrs vh sh self))
             (visited @ [i]) (path @ [i]) f1 d)) = f1 @ added"
        "\<forall>p \<in> set added. last p = t \<and> (\<exists>x ys. p = (path @ [i]) @ x # ys)"
      using 1[OF refl refl deep] unfolding i_def f1_def by blast
    obtain a1 where
      f1: "f1 = final @ a1" "\<forall>p \<in> set a1. last p = t \<and> (\<exists>ys. p = path @ i # ys)"
    proof -
      consider "f1 = final" | "f1 = final @ [path @ [i]] \<and> i = t"
        using record_path_cases[of i t "path @ [i]" final] unfolding f1_def by blast
      then show ?thesis
      proof cases
        case 1
        then show ?thesis
          using that[of "[]"] by simp
      next
        case 2
        then show ?thesis
          using that[of "[path @ [i]]"] by simp
      qed
    qed
    have "\<forall>p \<in> set (a1 @ added). last p = t \<and> (\<exists>ys. p = path @ i # ys)"
      using f1(2) a(2) by auto
    moreover have "snd (snd (snd (check_connected_path vh sh it self t visited path final d md)))
        = final @ (a1 @ added)"
      using deep a(1) f1(1) by (simp add: check_connected_path_final i_def f1_def)
    ultimately show ?thesis
      unfolding i_def by blast
  qed
next
  case (2 vh sh it t visited path final d)
  show ?case by simp
next
  case (3 vh sh it t i "is" visited path final d)
  consider (new) "item (vh ! i) \<notin> set visited" | (seen) "\<not> item (vh ! i) \<notin> set visited"
    by blast
  then show ?case
  proof cases
    case seen
    then show ?thesis
      using 3(3)[OF seen] by (simp add: check_connected_path_loop_Cons)
  next
    case new
    obtain f' where
      c: "check_connected_path vh sh it i t visited path final (d + 1) 20
            = (if path = [] then Some f' else None, visited, path, f')"
      using check_connected_path_stacks(1)[of vh sh it i t visited path final "d + 1" 20] by blast
    obtain a1 where
      a1: "f' = final @ a1" "\<forall>p \<in> set a1. last p = t \<and> (\<exists>ys. p = path @ item (vh ! i) # ys)"
      using 3(1)[OF new] c by auto
    obtain a2 where
      a2: "snd (snd (check_connected_path_loop vh sh it t is visited path f' d)) = f' @ a2"
        "\<forall>p \<in> set a2. last p = t \<and> (\<exists>x ys. p = path @ x # ys)"
      using 3(2)[OF new c[symmetric] refl refl] by blast
    have "\<forall>p \<in> set (a1 @ a2). last p = t \<and> (\<exists>x ys. p = path @ x # ys)"
      using a1(2) a2(2) by auto
    moreover have "snd (snd (check_connected_path_loop vh sh it t (i # is) visited path final d))
        = final @ (a1 @ a2)"
      using new a1(1) a2(1) c by (simp add: check_connected_path_loop_Cons)
    ultimately show ?thesis
      by blast
  qed
qed

lemma record_path_distinct: "distinct f \<Longrightarrow> distinct (record_path i t p f)"
  using record_path_cases[of i t p f] by auto

lemma check_connected_path_distinct:
  "distinct final \<Longrightarrow>
     distinct (snd (snd (snd (check_connected_path vh sh it self t visited path final d md))))"
  "distinct final \<Longrightarrow>
     distinct (snd (snd (check_connected_path_loop vh sh it t us visited path final d)))"
proof (induction vh sh it self t visited path final d md and vh sh it t us visited path final d
    rule: check_connected_path_check_connected_path_loop.induct)
  case (1 vh sh it self t visited path final d md)
  show ?case
    using 1(1)[OF refl refl] 1(2) by (simp add: check_connected_path_final record_path_distinct)
next
  case (2 vh sh it t visited path final d)
  then show ?case by simp
next
  case (3 vh sh it t i "is" visited path final d)
  consider (new) "item (vh ! i) \<notin> set visited" | (seen) "\<not> item (vh ! i) \<notin> set visited"
    by blast
  then show ?case
  proof cases
    case seen
    then show ?thesis
      using 3(3)[OF seen 3(4)] by (simp add: check_connected_path_loop_Cons)
  next
    case new
    obtain f' where
      c: "check_connected_path vh sh it i t visited path final (d + 1) 20
            = (if path = [] then Some f' else None, visited, path, f')"
      using check_connected_path_stacks(1)[of vh sh it i t visited path final "d + 1" 20] by blast
    have "distinct f'"
      using 3(1)[OF new 3(4)] c by simp
    then show ?thesis
      using 3(2)[OF new c[symmetric] refl refl] new c by (simp add: check_connected_path_loop_Cons)
  qed
qed

lemma count_matching_fold:
  "fold (\<lambda>i count. if P i then count + 1 else count) is (c::nat) = c + length (filter P is)"
  by (induction "is" arbitrary: c) simp_all

lemma zip_as_map_nth:
  "zip xs ys = map (\<lambda>i. (xs ! i, ys ! i)) [0 ..< min (length xs) (length ys)]"
  by (rule nth_equalityI) simp_all

lemma count_matching_eq: "count_matching last_path path = matching_positions last_path path"
proof -
  have "matching_positions last_path path
      = length (filter (\<lambda>i. last_path ! i = path ! i) [0 ..< min (length last_path) (length path)])"
    unfolding matching_positions_def
    by (subst zip_as_map_nth) (simp add: filter_map comp_def)
  then show ?thesis
    by (simp add: count_matching_def count_matching_fold min.commute)
qed

lemma record_path_eq:
  "record_path t t p f =
     (if p \<in> set f then f
      else if f = [] \<or> matching_positions (last f) p < length p - length p div 3 then f @ [p]
      else f)"
  by (auto simp add: record_path_def Let_def count_matching_eq last_conv_nth)

lemma fold_min_path:
  "fold (\<lambda>p m. if length p < length m then p else m) ps m0 = r \<Longrightarrow>
     (r = m0 \<or> r \<in> set ps) \<and> length r \<le> length m0 \<and> (\<forall>q \<in> set ps. length r \<le> length q)"
proof (induction ps arbitrary: m0)
  case Nil
  then show ?case by simp
next
  case (Cons p ps)
  show ?case
    using Cons.IH[of "if length p < length m0 then p else m0"] Cons.prems
    by (auto split: if_splits)
qed

lemma check_connected_path_top_cap:
  "0 \<le> md \<Longrightarrow> 0 \<le> md' \<Longrightarrow>
     check_connected_path vh sh it self t visited path final 0 md
       = check_connected_path vh sh it self t visited path final 0 md'"
  by (simp add: check_connected_path_unfold)

lemma connected_path_absent:
  "\<not> (has_vertex g a \<and> has_vertex g b) \<Longrightarrow> connected_path g it a b md = None"
  by (auto simp add: connected_path_def)

lemma connected_path_delegates:
  assumes "has_vertex g a \<and> has_vertex g b"
  shows "connected_path g it a b md
    = fst (check_connected_path (vertex_heap g) (set_heap g) it (vertex_of g a) b [] [] [] 0 md)"
proof -
  have "check_connected_path (vertex_heap g) (set_heap g) it (vertex_of g a) b [] [] [] 0 20
      = check_connected_path (vertex_heap g) (set_heap g) it (vertex_of g a) b [] [] [] 0 md"
    if "\<not> md \<le> 20"
    using that by (intro check_connected_path_top_cap) simp_all
  then show ?thesis
    using assms by (simp add: connected_path_def Let_def)
qed

lemma connected_path_present:
  assumes "has_vertex g a \<and> has_vertex g b"
  shows "connected_path g it a b md
    = Some (snd (snd (snd (check_connected_path (vertex_heap g) (set_heap g) it (vertex_of g a) b
              [] [] [] 0 md))))"
proof -
  obtain f' where
    "check_connected_path (vertex_heap g) (set_heap g) it (vertex_of g a) b [] [] [] 0 md
       = (if ([]::'a list) = [] then Some f' else None, [], [], f')"
    using check_connected_path_stacks(1)[of "vertex_heap g" "set_heap g" it "vertex_of g a" b
        "[]" "[]" "[]" 0 md] by blast
  then show ?thesis
    by (simp add: connected_path_delegates[OF assms])
qed

subsection \<open>Claim C6\<close>

text \<open>
  C6, as amended. In the path enumeration, within the depth cap
  (\<open>depth \<le> max_depth\<close>), when the current vertex's item equals the target and the
  candidate path (the path so far with the current item appended) is not a literal
  duplicate of one already recorded: if at least one path has been recorded, the
  candidate is appended to the results iff
  \<open>matching < len(path) - len(path) // 3\<close>, where \<open>matching\<close> counts the
  positions at which the candidate and the most recently recorded path agree over their
  overlapping length; if no path has been recorded, the candidate is always appended.
  Whatever the call records after that (\<open>more\<close>) is not the candidate.
\<close>

theorem path_recorded_iff_different_enough:
  assumes "depth \<le> max_depth"
    and "item (vh ! self) = target_item"
    and "path @ [target_item] \<notin> set final_path"
  shows "\<exists>more.
      snd (snd (snd (check_connected_path vh sh it self target_item visited path final_path
                       depth max_depth)))
        = (if final_path = [] \<or>
              matching_positions (last final_path) (path @ [target_item])
                < length (path @ [target_item]) - length (path @ [target_item]) div 3
           then final_path @ [path @ [target_item]] else final_path) @ more
      \<and> path @ [target_item] \<notin> set more"
proof -
  define cand where "cand = path @ [target_item]"
  define f1 where "f1 = record_path target_item target_item cand final_path"
  have f1: "f1 = (if final_path = [] \<or> matching_positions (last final_path) cand
                      < length cand - length cand div 3
                  then final_path @ [cand] else final_path)"
    using assms(3) unfolding f1_def cand_def by (simp add: record_path_eq)
  obtain more where
    m: "snd (snd (check_connected_path_loop vh sh it target_item
          (it (neighbours (vh ! self)) (nbrs vh sh self)) (visited @ [target_item]) cand f1 depth))
        = f1 @ more"
      "\<forall>p \<in> set more. last p = target_item \<and> (\<exists>x ys. p = cand @ x # ys)"
    using check_connected_path_results(2)[of vh sh it target_item
        "it (neighbours (vh ! self)) (nbrs vh sh self)" "visited @ [target_item]" cand f1 depth]
    by blast
  have "cand \<notin> set more"
    using m(2) by auto
  moreover have "snd (snd (snd (check_connected_path vh sh it self target_item visited path final_path
                       depth max_depth))) = f1 @ more"
    using assms(1,2) m(1) by (simp add: check_connected_path_final cand_def f1_def)
  ultimately show ?thesis
    unfolding f1 cand_def by blast
qed

theorem path_recorded_iff_different_enough_witness:
  "(3::int) \<le> 20 \<and> item (vertex_heap hexagon ! 5) = 5 \<and> [0, 3, 4] @ [5] \<notin> set [[0, 1, 2, 5::nat]]
   \<and> matching_positions (last [[0, 1, 2, 5::nat]]) ([0, 3, 4] @ [5]) = 2
   \<and> snd (snd (snd (check_connected_path (vertex_heap hexagon) (set_heap hexagon) iter_sorted 5 5
                       [0, 3, 4] [0, 3, 4] [[0, 1, 2, 5]] 3 20)))
       = [[0, 1, 2, 5], [0, 3, 4, 5]]"
proof -
  have e: "item (vertex_heap hexagon ! 5) = 5"
    "matching_positions (last [[0, 1, 2, 5::nat]]) ([0, 3, 4] @ [5]) = 2"
    "snd (snd (snd (check_connected_path (vertex_heap hexagon) (set_heap hexagon) iter_sorted 5 5
                       [0, 3, 4] [0, 3, 4] [[0, 1, 2, 5]] 3 20)))
       = [[0, 1, 2, 5], [0, 3, 4, 5]]"
    by code_simp+
  have h: "(3::int) \<le> 20" "[0, 3, 4] @ [5] \<notin> set [[0, 1, 2, 5::nat]]"
    by simp_all
  show ?thesis
    using path_recorded_iff_different_enough[OF h(1) e(1) h(2), of "set_heap hexagon" iter_sorted
        "[0, 3, 4]"] e h
    by simp
qed

text \<open>
  C6 as stated, without the depth cap, fails: \<open>connected_path(0, 0, -1)\<close> on the
  graph with the single vertex 0 starts the enumeration at a vertex whose item is the
  target, with no path recorded, and records nothing, since \<open>depth \<le> max_depth\<close>
  is false there (line 61).
\<close>

theorem candidate_beyond_depth_cap_not_recorded:
  "has_vertex one_vertex 0 \<and> item (vertex_heap one_vertex ! vertex_of one_vertex 0) = 0
   \<and> snd (snd (snd (check_connected_path (vertex_heap one_vertex) (set_heap one_vertex) iter_sorted
                       (vertex_of one_vertex 0) 0 [] [] [] 0 (- 1)))) = []
   \<and> connected_path one_vertex iter_sorted 0 0 (- 1) = Some []"
  by code_simp

subsection \<open>Claim C7\<close>

text \<open>
  C7. For all items \<open>a\<close>, \<open>b\<close>: \<open>shortest_path(a, b)\<close> returns \<open>None\<close>
  when \<open>connected_path\<close> yields no paths (\<open>None\<close> or the empty list); otherwise
  it returns one of the retained paths, whose first element is \<open>a\<close> and last element
  is \<open>b\<close>, and whose length is less than or equal to the length of every path in the
  retained result set.
\<close>

theorem shortest_path_minimal:
  assumes "graph_ok g"
  shows "(connected_path g it a b 20 = None \<or> connected_path g it a b 20 = Some []
            \<longrightarrow> shortest_path g it a b = None)
       \<and> (\<forall>paths. connected_path g it a b 20 = Some paths \<and> paths \<noteq> [] \<longrightarrow>
            (\<exists>p. shortest_path g it a b = Some p \<and> p \<in> set paths
               \<and> p \<noteq> [] \<and> hd p = a \<and> last p = b
               \<and> (\<forall>q \<in> set paths. length p \<le> length q)))"
proof (intro conjI allI impI)
  assume "connected_path g it a b 20 = None \<or> connected_path g it a b 20 = Some []"
  then show "shortest_path g it a b = None"
    by (auto simp add: shortest_path_def)
next
  fix paths
  assume c: "connected_path g it a b 20 = Some paths \<and> paths \<noteq> []"
  have both: "has_vertex g a \<and> has_vertex g b"
    using c connected_path_absent[of g a b it 20] by auto
  have k: "keys_ok g"
    using assms by (simp add: graph_ok_def)
  have ia: "item (vertex_heap g ! vertex_of g a) = a"
    using keys_okD[OF k] both by simp
  have paths: "paths = snd (snd (snd (check_connected_path (vertex_heap g) (set_heap g) it
      (vertex_of g a) b [] [] [] 0 20)))"
    using c connected_path_present[OF both, of it 20] by simp
  have shape: "\<forall>p \<in> set paths. last p = b \<and> (\<exists>ys. p = a # ys)"
    using check_connected_path_results(1)[of "vertex_heap g" "set_heap g" it "vertex_of g a" b
        "[]" "[]" "[]" 0 20] ia unfolding paths by auto
  define p where "p = fold (\<lambda>p m. if length p < length m then p else m) paths (paths ! 0)"
  have sp: "shortest_path g it a b = Some p"
    using c by (simp add: shortest_path_def p_def)
  have "paths ! 0 \<in> set paths"
    using c by (simp add: nth_mem)
  then have m: "p \<in> set paths" "\<forall>q \<in> set paths. length p \<le> length q"
    using fold_min_path[OF p_def[symmetric]] by auto
  have "p \<noteq> [] \<and> hd p = a \<and> last p = b"
    using shape m(1) by auto
  then show "\<exists>p. shortest_path g it a b = Some p \<and> p \<in> set paths
               \<and> p \<noteq> [] \<and> hd p = a \<and> last p = b
               \<and> (\<forall>q \<in> set paths. length p \<le> length q)"
    using sp m by blast
qed

theorem shortest_path_minimal_witness:
  "graph_ok hexagon
   \<and> connected_path hexagon iter_sorted 0 5 20 = Some [[0, 1, 2, 5], [0, 3, 4, 5]]
   \<and> shortest_path hexagon iter_sorted 0 5 = Some [0, 1, 2, 5]
   \<and> connected_path hexagon iter_sorted 0 7 20 = None
   \<and> shortest_path hexagon iter_sorted 0 7 = None"
proof -
  have b: "built any_call hexagon"
    unfolding hexagon_def by (rule built_run[OF built.init]) simp
  have ok: "graph_ok hexagon"
    using b by (rule built_graph_ok)
  have e: "connected_path hexagon iter_sorted 0 5 20 = Some [[0, 1, 2, 5], [0, 3, 4, 5]]"
    "shortest_path hexagon iter_sorted 0 5 = Some [0, 1, 2, 5]"
    "connected_path hexagon iter_sorted 0 7 20 = None"
    by code_simp+
  show ?thesis
    using shortest_path_minimal[OF ok, of iter_sorted 0 7] shortest_path_minimal[OF ok, of iter_sorted 0 5]
      ok e
    by simp
qed

subsection \<open>Claim C8\<close>

text \<open>
  C8. For all items and every depth cap, the result list returned by
  \<open>connected_path\<close> never contains two identical item sequences.
\<close>

theorem connected_path_no_duplicates:
  "connected_path g it item1 item2 max_depth = Some paths \<Longrightarrow> distinct paths"
proof -
  assume c: "connected_path g it item1 item2 max_depth = Some paths"
  have both: "has_vertex g item1 \<and> has_vertex g item2"
    using c connected_path_absent[of g item1 item2 it max_depth] by auto
  have "paths = snd (snd (snd (check_connected_path (vertex_heap g) (set_heap g) it
      (vertex_of g item1) item2 [] [] [] 0 max_depth)))"
    using c connected_path_present[OF both, of it max_depth] by simp
  then show "distinct paths"
    using check_connected_path_distinct(1)[of "[]"] by simp
qed

theorem connected_path_no_duplicates_witness:
  "connected_path hexagon iter_sorted 0 5 20 = Some [[0, 1, 2, 5], [0, 3, 4, 5]]
   \<and> distinct [[0, 1, 2, 5], [0, 3, 4, 5::nat]]"
proof -
  have e: "connected_path hexagon iter_sorted 0 5 20 = Some [[0, 1, 2, 5], [0, 3, 4, 5]]"
    by code_simp
  show ?thesis
    using connected_path_no_duplicates[OF e] e by simp
qed

subsection \<open>Claim C9\<close>

text \<open>
  C9. For all items \<open>item1\<close>, \<open>item2\<close> and every \<open>max_depth\<close>,
  \<open>connected_path(item1, item2, max_depth)\<close> returns \<open>None\<close> exactly when one
  of the items is unknown; otherwise it returns what \<open>check_connected_path\<close>
  returns on empty \<open>visited\<close>, \<open>path\<close> and result lists, depth 0 and the given
  cap \<open>max_depth\<close>. (For a cap above 20 the source passes the default 20 instead;
  the top-level call compares the cap with depth 0 only, so the value is the same.)
\<close>

theorem connected_path_delegation:
  "connected_path g it item1 item2 max_depth
     = (if has_vertex g item1 \<and> has_vertex g item2
        then fst (check_connected_path (vertex_heap g) (set_heap g) it (vertex_of g item1) item2
                    [] [] [] 0 max_depth)
        else None)
   \<and> (connected_path g it item1 item2 max_depth = None)
       = (\<not> (has_vertex g item1 \<and> has_vertex g item2))"
proof -
  consider (both) "has_vertex g item1 \<and> has_vertex g item2"
    | (absent) "\<not> (has_vertex g item1 \<and> has_vertex g item2)"
    by blast
  then show ?thesis
  proof cases
    case both
    show ?thesis
      using both connected_path_delegates[OF both, of it max_depth, symmetric]
        connected_path_present[OF both, of it max_depth]
      by simp
  next
    case absent
    have "connected_path g it item1 item2 max_depth = None"
      using absent by (rule connected_path_absent)
    then show ?thesis
      using absent by auto
  qed
qed

theorem connected_path_delegation_witness:
  "connected_path hexagon iter_sorted 0 5 25
     = fst (check_connected_path (vertex_heap hexagon) (set_heap hexagon) iter_sorted
              (vertex_of hexagon 0) 5 [] [] [] 0 25)
   \<and> connected_path hexagon iter_sorted 0 5 25 = Some [[0, 1, 2, 5], [0, 3, 4, 5]]
   \<and> connected_path hexagon iter_sorted 0 7 25 = None"
proof -
  have e: "has_vertex hexagon 0" "has_vertex hexagon 5" "\<not> has_vertex hexagon 7"
    "connected_path hexagon iter_sorted 0 5 25 = Some [[0, 1, 2, 5], [0, 3, 4, 5]]"
    by code_simp+
  show ?thesis
    using connected_path_delegation[of hexagon iter_sorted 0 5 25]
      connected_path_delegation[of hexagon iter_sorted 0 7 25] e
    by simp
qed

section \<open>The searches that write to the set store\<close>

lemma check_connected_distance_negative:
  "d < 0 \<Longrightarrow> check_connected_distance vh it self t visited d sh = (False, sh)"
  by (simp add: check_connected_distance.simps)

lemma check_connected_distance_any_zero:
  "check_connected_distance_any vh it t us new_visited 0 sh = (False, sh)"
  by (induction us) (simp_all add: check_connected_distance_negative)

lemma check_connected_distance_zero:
  "fst (check_connected_distance vh it self t visited 0 sh) = (item (vh ! self) = t)"
  by (simp add: check_connected_distance.simps check_connected_distance_any_zero Let_def)

lemma check_connected_distance_extends:
  "\<exists>ext. snd (check_connected_distance vh it self t visited d sh) = sh @ ext"
  "\<exists>ext. snd (check_connected_distance_any vh it t us new_visited d sh) = sh @ ext"
proof (induction vh it self t visited d sh and vh it t us new_visited d sh
    rule: check_connected_distance_check_connected_distance_any.induct)
  case (1 vh it self t visited d sh)
  consider (stop) "(item (vh ! self) = t \<and> 0 \<le> d) \<or> d < 0"
    | (go) "\<not> (item (vh ! self) = t \<and> 0 \<le> d)" "\<not> d < 0"
    by blast
  then show ?case
  proof cases
    case stop
    then show ?thesis
      by (auto simp add: check_connected_distance.simps)
  next
    case go
    define sh1 where "sh1 = sh @ [sh ! visited \<union> {self}]"
    obtain ext where
      "snd (check_connected_distance_any vh it t (it (neighbours (vh ! self)) (nbrs vh sh1 self))
              (length sh) d sh1) = sh1 @ ext"
      using 1[OF go refl refl] unfolding sh1_def by blast
    then have "snd (check_connected_distance vh it self t visited d sh) = sh @ ([sh ! visited \<union> {self}] @ ext)"
      using go by (simp add: check_connected_distance.simps Let_def sh1_def)
    then show ?thesis
      by blast
  qed
next
  case (2 vh it t new_visited d sh)
  show ?case by simp
next
  case (3 vh it t u us new_visited d sh)
  consider (new) "u \<notin> sh ! new_visited" | (seen) "\<not> u \<notin> sh ! new_visited"
    by blast
  then show ?case
  proof cases
    case seen
    then show ?thesis
      using 3(3)[OF seen] by simp
  next
    case new
    obtain r sh' where c: "check_connected_distance vh it u t new_visited (d - 1) sh = (r, sh')"
      by (metis surj_pair)
    obtain e1 where e1: "sh' = sh @ e1"
      using 3(1)[OF new] c by auto
    show ?thesis
    proof -
      consider (found) "r" | (on) "\<not> r"
        by blast
      then show ?thesis
      proof cases
        case found
        then show ?thesis
          using new c e1 by simp
      next
        case on
        obtain e2 where
          "snd (check_connected_distance_any vh it t us new_visited d sh') = sh' @ e2"
          using 3(2)[OF new c[symmetric] on] by blast
        then have "snd (check_connected_distance_any vh it t (u # us) new_visited d sh) = sh @ (e1 @ e2)"
          using new c on e1 by simp
        then show ?thesis
          by blast
      qed
    qed
  qed
qed

lemma check_connected_frame:
  "length (snd (check_connected vh it self t visited d sh)) = length sh
   \<and> (\<forall>s. s \<noteq> visited \<longrightarrow> snd (check_connected vh it self t visited d sh) ! s = sh ! s)"
  "length (snd (check_connected_loop vh it t us visited d sh)) = length sh
   \<and> (\<forall>s. s \<noteq> visited \<longrightarrow> snd (check_connected_loop vh it t us visited d sh) ! s = sh ! s)"
proof (induction vh it self t visited d sh and vh it t us visited d sh
    rule: check_connected_check_connected_loop.induct)
  case (1 vh it self t visited d sh)
  consider (stop) "20 < d \<or> item (vh ! self) = t"
    | (go) "\<not> 20 < d" "item (vh ! self) \<noteq> t"
    by blast
  then show ?case
  proof cases
    case stop
    then show ?thesis
      by (auto simp add: check_connected.simps)
  next
    case go
    have "check_connected vh it self t visited d sh
        = check_connected_loop vh it t (it (neighbours (vh ! self)) (nbrs vh sh self)) visited d
            (set_add sh visited self)"
      using go by (simp add: check_connected.simps)
    then show ?thesis
      using 1[OF go] by (simp add: set_add_def)
  qed
next
  case (2 vh it t visited d sh)
  show ?case by simp
next
  case (3 vh it t u us visited d sh)
  consider (new) "u \<notin> sh ! visited" | (seen) "\<not> u \<notin> sh ! visited"
    by blast
  then show ?case
  proof cases
    case seen
    then show ?thesis
      using 3(3)[OF seen] by simp
  next
    case new
    obtain r sh' where c: "check_connected vh it u t visited (d + 1) sh = (r, sh')"
      by (metis surj_pair)
    have f1: "length sh' = length sh \<and> (\<forall>s. s \<noteq> visited \<longrightarrow> sh' ! s = sh ! s)"
      using 3(1)[OF new] c by simp
    consider (found) "r" | (on) "\<not> r"
      by blast
    then show ?thesis
    proof cases
      case found
      then show ?thesis
        using new c f1 by simp
    next
      case on
      show ?thesis
        using 3(2)[OF new c[symmetric] on] new c on f1 by simp
    qed
  qed
qed

subsection \<open>Claim C2\<close>

text \<open>
  C2, as amended. For every graph and all items \<open>a\<close>, \<open>b\<close> that are vertices of
  the graph: \<open>connected_distance(a, b, 0)\<close> returns true if and only if
  \<open>a == b\<close>.
\<close>

theorem connected_distance_zero:
  assumes "graph_ok g" and "has_vertex g a" and "has_vertex g b"
  shows "fst (connected_distance g it a b 0) = (a = b)"
proof -
  have k: "keys_ok g"
    using assms(1) by (simp add: graph_ok_def)
  have ia: "item (vertex_heap g ! vertex_of g a) = a"
    using keys_okD[OF k assms(2)] by simp
  show ?thesis
    using assms(2,3) ia
    by (simp add: connected_distance_def Let_def case_prod_beta check_connected_distance_zero)
qed

theorem connected_distance_zero_witness:
  "graph_ok edge_graph \<and> has_vertex edge_graph 0 \<and> has_vertex edge_graph 1
   \<and> fst (connected_distance edge_graph iter_sorted 0 0 0)
   \<and> \<not> fst (connected_distance edge_graph iter_sorted 0 1 0)"
proof -
  have b: "built any_call edge_graph"
    unfolding edge_graph_def by (rule built_run[OF built.init]) simp
  have ok: "graph_ok edge_graph"
    using b by (rule built_graph_ok)
  have e: "has_vertex edge_graph 0" "has_vertex edge_graph 1"
    by code_simp+
  show ?thesis
    using connected_distance_zero[OF ok e(1) e(1), of iter_sorted]
      connected_distance_zero[OF ok e(1) e(2), of iter_sorted] ok e
    by simp
qed

text \<open>
  C2 as stated, for all items, fails: for an item that is not a vertex,
  \<open>connected_distance(a, a, 0)\<close> returns \<open>False\<close> by the membership test of
  line 231, although \<open>a == a\<close>. Here on the empty graph.
\<close>

theorem connected_distance_zero_absent:
  "\<not> has_vertex (Graph_init :: nat graph) 0
   \<and> \<not> fst (connected_distance (Graph_init :: nat graph) iter_sorted 0 0 0)"
  by code_simp

section \<open>The depth-first search of \<open>connected\<close>\<close>

text \<open>
  \<open>check_connected\<close> changes the visited set only; it answers \<open>True\<close> only along
  a simple path through unvisited vertices that the depth ceiling admits; and when it
  answers \<open>False\<close> while no simple path from the start of the search is long enough
  to meet the ceiling, every vertex it has visited has all its neighbours visited.
\<close>

lemma store_view_frame:
  assumes "store_view vh N vis sh" "length sh' = length sh" "\<forall>s. s \<noteq> vis \<longrightarrow> sh' ! s = sh ! s"
  shows "store_view vh N vis sh'"
  using assms by (simp add: store_view_def nbrs_def)

lemma store_view_set_add:
  assumes "store_view vh N vis sh"
  shows "store_view vh N vis (set_add sh vis x)" "set_add sh vis x ! vis = insert x (sh ! vis)"
proof -
  show "store_view vh N vis (set_add sh vis x)"
    using assms by (rule store_view_frame) (simp_all add: set_add_def)
  show "set_add sh vis x ! vis = insert x (sh ! vis)"
    using assms by (simp add: store_view_def set_add_def)
qed

lemma check_connected_store_view:
  assumes "store_view vh N vis sh"
  shows "store_view vh N vis (snd (check_connected vh it self t vis d sh))"
    "store_view vh N vis (snd (check_connected_loop vh it t us vis d sh))"
  using assms check_connected_frame(1)[of vh it self t vis d sh]
    check_connected_frame(2)[of vh it t us vis d sh]
  by (auto intro: store_view_frame)

lemma check_connected_unfold:
  "check_connected vh it self t vis d sh =
     (if 20 < d then (False, sh)
      else if item (vh ! self) = t then (True, sh)
      else check_connected_loop vh it t (it (neighbours (vh ! self)) (nbrs vh sh self)) vis d
             (set_add sh vis self))"
  by (simp add: check_connected.simps)

lemma check_connected_loop_Cons:
  "check_connected_loop vh it t (u # us) vis d sh =
     (if u \<in> sh ! vis then check_connected_loop vh it t us vis d sh
      else if fst (check_connected vh it u t vis (d + 1) sh)
           then (True, snd (check_connected vh it u t vis (d + 1) sh))
           else check_connected_loop vh it t us vis d (snd (check_connected vh it u t vis (d + 1) sh)))"
  by (simp add: case_prod_beta)


















lemma graph_search_ctx:
  assumes "graph_ok g" "valid_iter it"
  shows "search_ctx (vertex_heap g) it (nbrs_of g)"
proof -
  have r: "refs_ok g"
    using assms(1) by (simp add: graph_ok_def)
  have "finite (nbrs_of g v) \<and> (\<forall>u \<in> nbrs_of g v. u < length (vertex_heap g))"
    if "v < length (vertex_heap g)" for v
    using r that by (simp add: refs_ok_def)
  moreover have "set (it s (nbrs_of g v)) = nbrs_of g v" if "v < length (vertex_heap g)" for s v
  proof -
    have "finite (nbrs_of g v)"
      using r that by (simp add: refs_ok_def)
    then show ?thesis
      using assms(2) by (simp add: valid_iter_def)
  qed
  ultimately show ?thesis
    by (simp add: search_ctx_def)
qed












subsection \<open>Claim C1\<close>





section \<open>Queries after queries\<close>

lemma nbrs_view_append: "nbrs_view vh N sh \<Longrightarrow> nbrs_view vh N (sh @ ext)"
  by (auto simp add: nbrs_view_def nbrs_def nth_append)

lemma nbrs_view_store_view: "nbrs_view vh N sh \<Longrightarrow> store_view vh N (length sh) (sh @ [{}])"
  by (auto simp add: nbrs_view_def store_view_def nbrs_def nth_append)

lemma nbrs_view_graph: "graph_ok g \<Longrightarrow> nbrs_view (vertex_heap g) (nbrs_of g) (set_heap g)"
  by (simp add: nbrs_view_def graph_ok_def refs_ok_def)

lemma extends_graph_nbrs:
  assumes "graph_ok g" "extends_graph g g'" "v < length (vertex_heap g)"
  shows "neighbours (vertex_heap g ! v) < length (set_heap g')" "nbrs_of g' v = nbrs_of g v"
proof -
  have r: "neighbours (vertex_heap g ! v) < length (set_heap g)"
    using assms(1,3) by (simp add: graph_ok_def refs_ok_def)
  have t: "take (length (set_heap g)) (set_heap g') = set_heap g"
    using assms(2) by (simp add: extends_graph_def)
  have "length (take (length (set_heap g)) (set_heap g')) = length (set_heap g)"
    unfolding t by simp
  then have l: "length (set_heap g) \<le> length (set_heap g')"
    by simp
  show "neighbours (vertex_heap g ! v) < length (set_heap g')"
    using r l by simp
  have "take (length (set_heap g)) (set_heap g') ! neighbours (vertex_heap g ! v)
      = set_heap g' ! neighbours (vertex_heap g ! v)"
    using r by simp
  then show "nbrs_of g' v = nbrs_of g v"
    unfolding t using assms(2) by (simp add: nbrs_def extends_graph_def)
qed

lemma extends_graph_view:
  assumes "graph_ok g" "extends_graph g g'"
  shows "nbrs_view (vertex_heap g) (nbrs_of g) (set_heap g')"
proof -
  have "neighbours (vertex_heap g ! v) < length (set_heap g')
      \<and> nbrs (vertex_heap g) (set_heap g') v = nbrs_of g v"
    if "v < length (vertex_heap g)" for v
    using extends_graph_nbrs[OF assms that] assms(2) by (simp add: extends_graph_def)
  then show ?thesis
    by (simp add: nbrs_view_def)
qed

lemma extends_graph_ok:
  assumes "graph_ok g" "extends_graph g g'"
  shows "graph_ok g'"
proof -
  have e: "vertices g' = vertices g" "vertex_heap g' = vertex_heap g"
    using assms(2) by (simp_all add: extends_graph_def)
  have k: "keys_ok g'"
    using assms(1) by (simp add: graph_ok_def keys_ok_def e)
  have s: "sets_owned g'"
    using assms(1) by (simp add: graph_ok_def sets_owned_def e)
  have "neighbours (vertex_heap g' ! v) < length (set_heap g')
      \<and> finite (nbrs_of g' v) \<and> (\<forall>u \<in> nbrs_of g' v. u < length (vertex_heap g'))"
    if "v < length (vertex_heap g')" for v
  proof -
    have v: "v < length (vertex_heap g)"
      using that by (simp add: e)
    have "finite (nbrs_of g v) \<and> (\<forall>u \<in> nbrs_of g v. u < length (vertex_heap g))"
      using assms(1) v by (simp add: graph_ok_def refs_ok_def)
    then show ?thesis
      using extends_graph_nbrs[OF assms v] by (simp add: e)
  qed
  then have "refs_ok g'"
    by (simp add: refs_ok_def)
  then show ?thesis
    using k s by (simp add: graph_ok_def)
qed

text \<open>The three searches read the set store through the neighbour sets only.\<close>

lemma check_connected_path_view:
  "nbrs_view vh N sh \<Longrightarrow> nbrs_view vh N sh' \<Longrightarrow> search_ctx vh it N \<Longrightarrow> self < length vh \<Longrightarrow>
     check_connected_path vh sh it self t visited path final d md
       = check_connected_path vh sh' it self t visited path final d md"
  "nbrs_view vh N sh \<Longrightarrow> nbrs_view vh N sh' \<Longrightarrow> search_ctx vh it N \<Longrightarrow>
     \<forall>u \<in> set us. u < length vh \<Longrightarrow>
     check_connected_path_loop vh sh it t us visited path final d
       = check_connected_path_loop vh sh' it t us visited path final d"
proof (induction vh sh it self t visited path final d md and vh sh it t us visited path final d
    rule: check_connected_path_check_connected_path_loop.induct)
  case (1 vh sh it self t visited path final d md)
  have n: "nbrs vh sh self = N self" "nbrs vh sh' self = N self"
    using 1(2,3,5) by (simp_all add: nbrs_view_def)
  show ?case
  proof (cases "d \<le> md")
    case True
    have "\<forall>u \<in> set (it (neighbours (vh ! self)) (nbrs vh sh self)). u < length vh"
      using 1(4,5) n(1) by (simp add: search_ctx_def)
    then have "check_connected_path_loop vh sh it t (it (neighbours (vh ! self)) (nbrs vh sh self))
          (visited @ [item (vh ! self)]) (path @ [item (vh ! self)])
          (record_path (item (vh ! self)) t (path @ [item (vh ! self)]) final) d
        = check_connected_path_loop vh sh' it t (it (neighbours (vh ! self)) (nbrs vh sh self))
          (visited @ [item (vh ! self)]) (path @ [item (vh ! self)])
          (record_path (item (vh ! self)) t (path @ [item (vh ! self)]) final) d"
      using 1(1)[OF refl refl True 1(2,3,4)] by simp
    then show ?thesis
      using True by (simp add: check_connected_path_unfold n)
  next
    case False
    then show ?thesis
      by (simp add: check_connected_path_unfold)
  qed
next
  case (2 vh sh it t visited path final d)
  show ?case by simp
next
  case (3 vh sh it t i "is" visited path final d)
  have i: "i < length vh" and r: "\<forall>u \<in> set is. u < length vh"
    using 3(7) by simp_all
  show ?case
  proof (cases "item (vh ! i) \<notin> set visited")
    case True
    obtain x v' p' f' where
      c: "check_connected_path vh sh it i t visited path final (d + 1) 20 = (x, v', p', f')"
      by (metis prod_cases4)
    have c': "check_connected_path vh sh' it i t visited path final (d + 1) 20 = (x, v', p', f')"
      using 3(1)[OF True 3(4,5,6) i] c by simp
    have "check_connected_path_loop vh sh it t is v' p' f' d
        = check_connected_path_loop vh sh' it t is v' p' f' d"
      using 3(2)[OF True c[symmetric] refl refl 3(4,5,6) r] .
    then show ?thesis
      using True c c' by simp
  next
    case False
    then show ?thesis
      using 3(3)[OF False 3(4,5,6) r] by simp
  qed
qed

lemma check_connected_view:
  "store_view vh N vis sh \<Longrightarrow> store_view vh N vis' sh' \<Longrightarrow> sh ! vis = sh' ! vis' \<Longrightarrow>
     search_ctx vh it N \<Longrightarrow> self < length vh \<Longrightarrow>
     fst (check_connected vh it self t vis d sh) = fst (check_connected vh it self t vis' d sh')
     \<and> snd (check_connected vh it self t vis d sh) ! vis
         = snd (check_connected vh it self t vis' d sh') ! vis'"
  "store_view vh N vis sh \<Longrightarrow> store_view vh N vis' sh' \<Longrightarrow> sh ! vis = sh' ! vis' \<Longrightarrow>
     search_ctx vh it N \<Longrightarrow> \<forall>u \<in> set us. u < length vh \<Longrightarrow>
     fst (check_connected_loop vh it t us vis d sh) = fst (check_connected_loop vh it t us vis' d sh')
     \<and> snd (check_connected_loop vh it t us vis d sh) ! vis
         = snd (check_connected_loop vh it t us vis' d sh') ! vis'"
proof (induction vh it self t vis d sh and vh it t us vis d sh arbitrary: sh' and sh'
    rule: check_connected_check_connected_loop.induct)
  case (1 vh it self t vis d sh)
  consider (stop) "20 < d \<or> item (vh ! self) = t"
    | (go) "\<not> 20 < d" "item (vh ! self) \<noteq> t"
    by blast
  then show ?case
  proof cases
    case stop
    then show ?thesis
      using 1(4) by (auto simp add: check_connected_unfold)
  next
    case go
    have n: "nbrs vh sh self = N self" "nbrs vh sh' self = N self"
      using 1(2,3,6) by (simp_all add: store_view_def)
    have r: "\<forall>u \<in> set (it (neighbours (vh ! self)) (nbrs vh sh self)). u < length vh"
      using 1(5,6) n(1) by (simp add: search_ctx_def)
    have e: "set_add sh vis self ! vis = set_add sh' vis' self ! vis'"
      using store_view_set_add(2)[OF 1(2), of self] store_view_set_add(2)[OF 1(3), of self] 1(4)
      by simp
    show ?thesis
      using 1(1)[OF go store_view_set_add(1)[OF 1(2)] store_view_set_add(1)[OF 1(3)] e 1(5) r] go
      by (simp add: check_connected_unfold n)
  qed
next
  case (2 vh it t vis d sh)
  then show ?case by simp
next
  case (3 vh it t u us vis d sh)
  have u: "u < length vh" and r: "\<forall>u \<in> set us. u < length vh"
    using 3(8) by simp_all
  obtain x sh1 where c: "check_connected vh it u t vis (d + 1) sh = (x, sh1)"
    by (metis surj_pair)
  obtain x' sh1' where c': "check_connected vh it u t vis' (d + 1) sh' = (x', sh1')"
    by (metis surj_pair)
  show ?case
  proof (cases "u \<notin> sh ! vis")
    case True
    have s: "u \<notin> sh' ! vis'"
      using True 3(6) by simp
    have ih: "x = x'" "sh1 ! vis = sh1' ! vis'"
      using 3(1)[OF True 3(4,5,6,7) u] c c' by simp_all
    have v1: "store_view vh N vis sh1"
      using check_connected_store_view(1)[OF 3(4), of it u t "d + 1"] c by simp
    have v1': "store_view vh N vis' sh1'"
      using check_connected_store_view(1)[OF 3(5), of it u t "d + 1"] c' by simp
    show ?thesis
    proof (cases x)
      case True
      then show ?thesis
        using \<open>u \<notin> sh ! vis\<close> s c c' ih by simp
    next
      case False
      show ?thesis
        using 3(2)[OF \<open>u \<notin> sh ! vis\<close> c[symmetric] False v1 v1' ih(2) 3(7) r]
          \<open>u \<notin> sh ! vis\<close> s c c' ih(1) False by simp
    qed
  next
    case False
    then have s: "\<not> u \<notin> sh' ! vis'"
      using 3(6) by simp
    show ?thesis
      using 3(3)[OF False 3(4,5,6,7) r] False s by simp
  qed
qed

lemma check_connected_distance_view:
  "nbrs_view vh N sh \<Longrightarrow> nbrs_view vh N sh' \<Longrightarrow> sh ! vis = sh' ! vis' \<Longrightarrow>
     search_ctx vh it N \<Longrightarrow> self < length vh \<Longrightarrow>
     fst (check_connected_distance vh it self t vis d sh)
       = fst (check_connected_distance vh it self t vis' d sh')"
  "nbrs_view vh N sh \<Longrightarrow> nbrs_view vh N sh' \<Longrightarrow> sh ! vis = sh' ! vis' \<Longrightarrow>
     vis < length sh \<Longrightarrow> vis' < length sh' \<Longrightarrow>
     search_ctx vh it N \<Longrightarrow> \<forall>u \<in> set us. u < length vh \<Longrightarrow>
     fst (check_connected_distance_any vh it t us vis d sh)
       = fst (check_connected_distance_any vh it t us vis' d sh')"
proof (induction vh it self t vis d sh and vh it t us vis d sh arbitrary: sh' vis' and sh' vis'
    rule: check_connected_distance_check_connected_distance_any.induct)
  case (1 vh it self t vis d sh)
  consider (stop) "(item (vh ! self) = t \<and> 0 \<le> d) \<or> d < 0"
    | (go) "\<not> (item (vh ! self) = t \<and> 0 \<le> d)" "\<not> d < 0"
    by blast
  then show ?case
  proof cases
    case stop
    then show ?thesis
      by (auto simp add: check_connected_distance.simps)
  next
    case go
    define s1 where "s1 = sh @ [sh ! vis \<union> {self}]"
    define s1' where "s1' = sh' @ [sh' ! vis' \<union> {self}]"
    have v: "nbrs_view vh N s1" "nbrs_view vh N s1'"
      using 1(2,3) by (simp_all add: s1_def s1'_def nbrs_view_append)
    have n: "nbrs vh s1 self = N self" "nbrs vh s1' self = N self"
      using v 1(6) by (simp_all add: nbrs_view_def)
    have r: "\<forall>u \<in> set (it (neighbours (vh ! self)) (nbrs vh s1 self)). u < length vh"
      using 1(5,6) n(1) by (simp add: search_ctx_def)
    have e: "s1 ! length sh = s1' ! length sh'"
      using 1(4) by (simp add: s1_def s1'_def)
    have l: "length sh < length s1" "length sh' < length s1'"
      by (simp_all add: s1_def s1'_def)
    have "fst (check_connected_distance_any vh it t (it (neighbours (vh ! self)) (nbrs vh s1 self))
          (length sh) d s1)
        = fst (check_connected_distance_any vh it t (it (neighbours (vh ! self)) (nbrs vh s1 self))
          (length sh') d s1')"
      using 1(1)[OF go refl, of s1 s1' "length sh'"] v e l 1(5) r
      by (simp add: s1_def)
    moreover have "check_connected_distance vh it self t vis d sh
        = check_connected_distance_any vh it t (it (neighbours (vh ! self)) (nbrs vh s1 self))
            (length sh) d s1"
      using go by (simp add: check_connected_distance.simps Let_def s1_def)
    moreover have "check_connected_distance vh it self t vis' d sh'
        = check_connected_distance_any vh it t (it (neighbours (vh ! self)) (nbrs vh s1' self))
            (length sh') d s1'"
      using go by (simp add: check_connected_distance.simps Let_def s1'_def)
    ultimately show ?thesis
      by (simp add: n)
  qed
next
  case (2 vh it t vis d sh)
  then show ?case by simp
next
  case (3 vh it t u us vis d sh)
  have u: "u < length vh" and r: "\<forall>u \<in> set us. u < length vh"
    using 3(10) by simp_all
  obtain x sh1 where c: "check_connected_distance vh it u t vis (d - 1) sh = (x, sh1)"
    by (metis surj_pair)
  obtain x' sh1' where c': "check_connected_distance vh it u t vis' (d - 1) sh' = (x', sh1')"
    by (metis surj_pair)
  show ?case
  proof (cases "u \<notin> sh ! vis")
    case True
    have s: "u \<notin> sh' ! vis'"
      using True 3(6) by simp
    have ih: "x = x'"
      using 3(1)[OF True 3(4,5,6,9) u] c c' by simp
    obtain ext where ext: "sh1 = sh @ ext"
      using check_connected_distance_extends(1)[of vh it u t vis "d - 1" sh] c by auto
    obtain ext' where ext': "sh1' = sh' @ ext'"
      using check_connected_distance_extends(1)[of vh it u t vis' "d - 1" sh'] c' by auto
    have v: "nbrs_view vh N sh1" "nbrs_view vh N sh1'"
      using 3(4,5) by (simp_all add: ext ext' nbrs_view_append)
    have e: "sh1 ! vis = sh1' ! vis'" "vis < length sh1" "vis' < length sh1'"
      using 3(6,7,8) by (simp_all add: ext ext' nth_append)
    show ?thesis
    proof (cases x)
      case True
      then show ?thesis
        using \<open>u \<notin> sh ! vis\<close> s c c' ih by simp
    next
      case False
      show ?thesis
        using 3(2)[OF \<open>u \<notin> sh ! vis\<close> c[symmetric] False v e 3(9) r]
          \<open>u \<notin> sh ! vis\<close> s c c' ih False by simp
    qed
  next
    case False
    then have s: "\<not> u \<notin> sh' ! vis'"
      using 3(6) by simp
    show ?thesis
      using 3(3)[OF False 3(4,5,6,7,8,9) r] False s by simp
  qed
qed

lemma extends_graph_refl: "extends_graph g g"
  by (simp add: extends_graph_def)

lemma connected_extends: "extends_graph g (snd (connected g it a b))"
proof (cases "has_vertex g a \<and> has_vertex g b")
  case False
  then show ?thesis
    by (auto simp add: connected_def extends_graph_def)
next
  case True
  define sh where "sh = snd (check_connected (vertex_heap g) it (vertex_of g a) b
      (length (set_heap g)) 0 (set_heap g @ [{}]))"
  have g': "snd (connected g it a b) = g\<lparr>set_heap := sh\<rparr>"
    using True by (simp add: sh_def connected_def Let_def case_prod_beta)
  have f: "length sh = Suc (length (set_heap g))"
    "\<And>s. s < length (set_heap g) \<Longrightarrow> sh ! s = set_heap g ! s"
    using check_connected_frame(1)[of "vertex_heap g" it "vertex_of g a" b "length (set_heap g)" 0
        "set_heap g @ [{}]"]
    unfolding sh_def by (simp_all add: nth_append)
  have "take (length (set_heap g)) sh = set_heap g"
    by (rule nth_equalityI) (simp_all add: f)
  then show ?thesis
    by (simp add: g' extends_graph_def)
qed

lemma connected_distance_extends: "extends_graph g (snd (connected_distance g it a b d))"
proof (cases "\<not> 20 < d \<and> has_vertex g a \<and> has_vertex g b")
  case False
  then show ?thesis
    by (auto simp add: connected_distance_def extends_graph_def)
next
  case True
  define sh where "sh = snd (check_connected_distance (vertex_heap g) it (vertex_of g a) b
      (length (set_heap g)) d (set_heap g @ [{}]))"
  have g': "snd (connected_distance g it a b d) = g\<lparr>set_heap := sh\<rparr>"
    using True by (simp add: sh_def connected_distance_def Let_def case_prod_beta)
  obtain ext where "sh = (set_heap g @ [{}]) @ ext"
    using check_connected_distance_extends(1)[of "vertex_heap g" it "vertex_of g a" b
        "length (set_heap g)" d "set_heap g @ [{}]"]
    unfolding sh_def by blast
  then have "take (length (set_heap g)) sh = set_heap g"
    by simp
  then show ?thesis
    by (simp add: g' extends_graph_def)
qed

lemma exec_query_extends: "extends_graph g (snd (exec_query g it q))"
  by (cases q)
    (simp_all add: extends_graph_refl case_prod_beta connected_extends connected_distance_extends)

lemma extends_graph_has_vertex: "extends_graph g g' \<Longrightarrow> has_vertex g' i = has_vertex g i"
  by (simp add: extends_graph_def has_vertex_def)

lemma extends_graph_vertex_of: "extends_graph g g' \<Longrightarrow> vertex_of g' i = vertex_of g i"
  by (simp add: extends_graph_def vertex_of_def)

lemma extends_graph_nbrs_of_key:
  assumes "graph_ok g" "extends_graph g g'" "has_vertex g i"
  shows "nbrs (vertex_heap g) (set_heap g') (vertex_of g i) = nbrs_of g (vertex_of g i)"
proof -
  have "keys_ok g"
    using assms(1) by (simp add: graph_ok_def)
  then have "vertex_of g i < length (vertex_heap g)"
    using assms(3) by (simp add: keys_okD)
  then show ?thesis
    using extends_graph_nbrs(2)[OF assms(1,2)] assms(2) by (simp add: extends_graph_def)
qed

lemma adjacent_extends:
  assumes "graph_ok g" "extends_graph g g'"
  shows "adjacent g' a b = adjacent g a b"
proof (cases "has_vertex g a \<and> has_vertex g b")
  case False
  then show ?thesis
    using assms(2) by (auto simp add: adjacent_def extends_graph_has_vertex)
next
  case True
  have e: "vertices g' = vertices g" "vertex_heap g' = vertex_heap g"
    using assms(2) by (simp_all add: extends_graph_def)
  show ?thesis
    using True extends_graph_nbrs_of_key[OF assms, of b] assms(2)
    by (simp add: adjacent_def Let_def extends_graph_has_vertex extends_graph_vertex_of e)
qed

lemma list_neighbours_extends:
  assumes "graph_ok g" "extends_graph g g'"
  shows "list_neighbours g' it a = list_neighbours g it a"
proof (cases "has_vertex g a")
  case False
  then show ?thesis
    using assms(2) by (simp add: list_neighbours_def extends_graph_has_vertex)
next
  case True
  have e: "vertices g' = vertices g" "vertex_heap g' = vertex_heap g"
    using assms(2) by (simp_all add: extends_graph_def)
  show ?thesis
    using True extends_graph_nbrs_of_key[OF assms, of a] assms(2)
    by (simp add: list_neighbours_def Let_def extends_graph_has_vertex extends_graph_vertex_of e)
qed

lemma degrees_extends:
  assumes "graph_ok g" "extends_graph g g'"
  shows "map (\<lambda>u. card (nbrs_of g' (vertex_of g' u))) (map fst (vertices g'))
    = map (\<lambda>u. card (nbrs_of g (vertex_of g u))) (map fst (vertices g))"
proof -
  have e: "vertices g' = vertices g" "vertex_heap g' = vertex_heap g"
    using assms(2) by (simp_all add: extends_graph_def)
  have "card (nbrs (vertex_heap g) (set_heap g') (vertex_of g u)) = card (nbrs_of g (vertex_of g u))"
    if "u \<in> set (map fst (vertices g))" for u
  proof -
    have "map_of (vertices g) u \<noteq> None"
      using that by (simp add: map_of_eq_None_iff)
    then have "has_vertex g u"
      by (simp add: has_vertex_def)
    then show ?thesis
      using extends_graph_nbrs_of_key[OF assms] by simp
  qed
  then show ?thesis
    using assms(2) by (simp add: e extends_graph_vertex_of)
qed

lemma num_edges_extends:
  assumes "graph_ok g" "extends_graph g g'"
  shows "num_edges g' = num_edges g"
  unfolding num_edges_def degrees_extends[OF assms] ..

lemma max_degree_extends:
  assumes "graph_ok g" "extends_graph g g'"
  shows "max_degree g' = max_degree g"
  unfolding max_degree_def degrees_extends[OF assms] ..

lemma connected_path_extends:
  assumes "graph_ok g" "valid_iter it" "extends_graph g g'"
  shows "connected_path g' it a b md = connected_path g it a b md"
proof (cases "has_vertex g a \<and> has_vertex g b")
  case False
  then show ?thesis
    using assms(3) by (auto simp add: connected_path_def extends_graph_has_vertex)
next
  case True
  have e: "vertices g' = vertices g" "vertex_heap g' = vertex_heap g"
    using assms(3) by (simp_all add: extends_graph_def)
  have "keys_ok g"
    using assms(1) by (simp add: graph_ok_def)
  then have a: "vertex_of g a < length (vertex_heap g)"
    using True by (simp add: keys_okD)
  have "check_connected_path (vertex_heap g) (set_heap g') it (vertex_of g a) b [] [] [] 0 m
      = check_connected_path (vertex_heap g) (set_heap g) it (vertex_of g a) b [] [] [] 0 m" for m
    using extends_graph_view[OF assms(1,3)] nbrs_view_graph[OF assms(1)]
      graph_search_ctx[OF assms(1,2)] a
    by (rule check_connected_path_view(1))
  then show ?thesis
    using assms(3)
    by (simp add: connected_path_def Let_def extends_graph_has_vertex extends_graph_vertex_of e)
qed

lemma shortest_path_extends:
  assumes "graph_ok g" "valid_iter it" "extends_graph g g'"
  shows "shortest_path g' it a b = shortest_path g it a b"
  unfolding shortest_path_def connected_path_extends[OF assms] ..

lemma connected_answer_extends:
  assumes "graph_ok g" "valid_iter it" "extends_graph g g'"
  shows "fst (connected g' it a b) = fst (connected g it a b)"
proof (cases "has_vertex g a \<and> has_vertex g b")
  case False
  then show ?thesis
    using assms(3) by (auto simp add: connected_def extends_graph_has_vertex)
next
  case True
  have e: "vertices g' = vertices g" "vertex_heap g' = vertex_heap g"
    using assms(3) by (simp_all add: extends_graph_def)
  have "keys_ok g"
    using assms(1) by (simp add: graph_ok_def)
  then have a: "vertex_of g a < length (vertex_heap g)"
    using True by (simp add: keys_okD)
  have v: "store_view (vertex_heap g) (nbrs_of g) (length (set_heap g)) (set_heap g @ [{}])"
    using nbrs_view_graph[OF assms(1)] by (rule nbrs_view_store_view)
  have v': "store_view (vertex_heap g) (nbrs_of g) (length (set_heap g')) (set_heap g' @ [{}])"
    using extends_graph_view[OF assms(1,3)] by (rule nbrs_view_store_view)
  have "fst (check_connected (vertex_heap g) it (vertex_of g a) b (length (set_heap g')) 0
        (set_heap g' @ [{}]))
      = fst (check_connected (vertex_heap g) it (vertex_of g a) b (length (set_heap g)) 0
        (set_heap g @ [{}]))"
    using check_connected_view(1)[OF v' v _ graph_search_ctx[OF assms(1,2)] a, of b 0] by simp
  then show ?thesis
    using True assms(3)
    by (simp add: connected_def Let_def case_prod_beta extends_graph_has_vertex
        extends_graph_vertex_of e)
qed

lemma connected_distance_answer_extends:
  assumes "graph_ok g" "valid_iter it" "extends_graph g g'"
  shows "fst (connected_distance g' it a b d) = fst (connected_distance g it a b d)"
proof (cases "\<not> 20 < d \<and> has_vertex g a \<and> has_vertex g b")
  case False
  then show ?thesis
    using assms(3) by (auto simp add: connected_distance_def extends_graph_has_vertex)
next
  case True
  have e: "vertices g' = vertices g" "vertex_heap g' = vertex_heap g"
    using assms(3) by (simp_all add: extends_graph_def)
  have "keys_ok g"
    using assms(1) by (simp add: graph_ok_def)
  then have a: "vertex_of g a < length (vertex_heap g)"
    using True by (simp add: keys_okD)
  have v: "nbrs_view (vertex_heap g) (nbrs_of g) (set_heap g @ [{}])"
    using nbrs_view_graph[OF assms(1)] by (rule nbrs_view_append)
  have v': "nbrs_view (vertex_heap g) (nbrs_of g) (set_heap g' @ [{}])"
    using extends_graph_view[OF assms(1,3)] by (rule nbrs_view_append)
  have "fst (check_connected_distance (vertex_heap g) it (vertex_of g a) b (length (set_heap g')) d
        (set_heap g' @ [{}]))
      = fst (check_connected_distance (vertex_heap g) it (vertex_of g a) b (length (set_heap g)) d
        (set_heap g @ [{}]))"
    using check_connected_distance_view(1)[OF v' v _ graph_search_ctx[OF assms(1,2)] a, of _ _ b d]
    by simp
  then show ?thesis
    using True assms(3)
    by (simp add: connected_distance_def Let_def case_prod_beta extends_graph_has_vertex
        extends_graph_vertex_of e)
qed

lemma exec_query_answer_extends:
  assumes "graph_ok g" "valid_iter it" "extends_graph g g'"
  shows "fst (exec_query g' it q) = fst (exec_query g it q)"
proof (cases q)
  case (Adjacent a b)
  then show ?thesis
    using adjacent_extends[OF assms(1,3)] by simp
next
  case (List_neighbours a)
  then show ?thesis
    using list_neighbours_extends[OF assms(1,3)] by simp
next
  case Num_edges
  then show ?thesis
    using num_edges_extends[OF assms(1,3)] by simp
next
  case Max_degree
  then show ?thesis
    using max_degree_extends[OF assms(1,3)] by simp
next
  case (Connected a b)
  then show ?thesis
    using connected_answer_extends[OF assms, of a b] by (simp add: case_prod_beta)
next
  case (Connected_path a b md)
  then show ?thesis
    using connected_path_extends[OF assms] by simp
next
  case (Shortest_path a b)
  then show ?thesis
    using shortest_path_extends[OF assms] by simp
next
  case (Connected_distance a b d)
  then show ?thesis
    using connected_distance_answer_extends[OF assms, of a b d] by (simp add: case_prod_beta)
qed

subsection \<open>Claim C10\<close>

text \<open>
  C10. Every query operation, \<open>adjacent\<close>, \<open>list_neighbours\<close>,
  \<open>num_edges\<close>, \<open>max_degree\<close>, \<open>connected\<close>, \<open>connected_path\<close>,
  \<open>shortest_path\<close> and \<open>connected_distance\<close>, leaves the graph state
  unchanged. After any query \<open>q\<close> the dictionary and the vertices are the same and
  every set object that existed before the call holds what it held (the store has only
  grown by the sets the query allocated); so, in a graph built via
  \<open>add_vertex\<close>/\<open>add_edge\<close> (\<open>graph_ok\<close>), the state is again
  well-formed and every vertex has the neighbour set it had; and, for every admissible
  iteration order of the sets, each of the eight queries, asked after \<open>q\<close>,
  returns the answer it would have returned before \<open>q\<close>.
\<close>

theorem queries_leave_graph_unchanged:
  "vertices (snd (exec_query g it q)) = vertices g
   \<and> vertex_heap (snd (exec_query g it q)) = vertex_heap g
   \<and> take (length (set_heap g)) (set_heap (snd (exec_query g it q))) = set_heap g
   \<and> (graph_ok g \<longrightarrow>
        graph_ok (snd (exec_query g it q))
        \<and> (\<forall>v < length (vertex_heap g). nbrs_of (snd (exec_query g it q)) v = nbrs_of g v))
   \<and> (graph_ok g \<and> valid_iter it \<longrightarrow>
        (\<forall>q'. fst (exec_query (snd (exec_query g it q)) it q') = fst (exec_query g it q')))"
proof -
  have e: "extends_graph g (snd (exec_query g it q))"
    by (rule exec_query_extends)
  have "vertices (snd (exec_query g it q)) = vertices g"
    "vertex_heap (snd (exec_query g it q)) = vertex_heap g"
    "take (length (set_heap g)) (set_heap (snd (exec_query g it q))) = set_heap g"
    using e by (simp_all add: extends_graph_def)
  moreover have "graph_ok (snd (exec_query g it q))" if "graph_ok g"
    using that e by (rule extends_graph_ok)
  moreover have "nbrs_of (snd (exec_query g it q)) v = nbrs_of g v"
    if "graph_ok g" "v < length (vertex_heap g)" for v
    using that(1) e that(2) by (rule extends_graph_nbrs(2))
  moreover have "fst (exec_query (snd (exec_query g it q)) it q') = fst (exec_query g it q')"
    if "graph_ok g" "valid_iter it" for q'
    using that e by (rule exec_query_answer_extends)
  ultimately show ?thesis
    by simp
qed

lemma hexagon_store:
  "set_heap hexagon = [{1, 3}, {0, 2}, {1, 5}, {0, 4}, {3, 5}, {2, 4}]"
  "set_heap (snd (exec_query hexagon iter_sorted (Connected 0 5)))
     = [{1, 3}, {0, 2}, {1, 5}, {0, 4}, {3, 5}, {2, 4}, {0, 1, 2}]"
  "set_heap (snd (exec_query hexagon iter_sorted (Connected_distance 0 5 3)))
     = [{1, 3}, {0, 2}, {1, 5}, {0, 4}, {3, 5}, {2, 4}, {}, {0}, {0, 1}, {0, 1, 2}]"
  "length (vertex_heap hexagon) = 6"
  "nbrs_of hexagon 0 = {1, 3}"
  "nbrs_of hexagon 5 = {2, 4}"
  by code_simp+

lemma hexagon_answers:
  "fst (exec_query hexagon iter_sorted (Adjacent 0 1)) = Truth True"
  "fst (exec_query hexagon iter_sorted (List_neighbours 0)) = Items (Some [1, 3])"
  "fst (exec_query hexagon iter_sorted Num_edges) = Count 6"
  "fst (exec_query hexagon iter_sorted Max_degree) = Degree (Inr 2)"
  "fst (exec_query hexagon iter_sorted (Connected 0 5)) = Truth True"
  "fst (exec_query hexagon iter_sorted (Connected_path 0 5 20))
     = Paths (Some [[0, 1, 2, 5], [0, 3, 4, 5]])"
  "fst (exec_query hexagon iter_sorted (Shortest_path 0 5)) = Items (Some [0, 1, 2, 5])"
  "fst (exec_query hexagon iter_sorted (Connected_distance 0 5 3)) = Truth True"
  by code_simp+

theorem queries_leave_graph_unchanged_witness:
  "graph_ok hexagon \<and> valid_iter iter_sorted
   \<and> set_heap hexagon = [{1, 3}, {0, 2}, {1, 5}, {0, 4}, {3, 5}, {2, 4}]
   \<and> set_heap (snd (exec_query hexagon iter_sorted (Connected 0 5)))
       = [{1, 3}, {0, 2}, {1, 5}, {0, 4}, {3, 5}, {2, 4}, {0, 1, 2}]
   \<and> set_heap (snd (exec_query hexagon iter_sorted (Connected_distance 0 5 3)))
       = [{1, 3}, {0, 2}, {1, 5}, {0, 4}, {3, 5}, {2, 4}, {}, {0}, {0, 1}, {0, 1, 2}]
   \<and> graph_ok (snd (exec_query hexagon iter_sorted (Connected 0 5)))
   \<and> nbrs_of (snd (exec_query hexagon iter_sorted (Connected 0 5))) 0 = {1, 3}
   \<and> nbrs_of (snd (exec_query hexagon iter_sorted (Connected_distance 0 5 3))) 5 = {2, 4}
   \<and> fst (exec_query (snd (exec_query hexagon iter_sorted (Connected 0 5))) iter_sorted
           (Adjacent 0 1)) = Truth True
   \<and> fst (exec_query (snd (exec_query hexagon iter_sorted (Connected 0 5))) iter_sorted
           (List_neighbours 0)) = Items (Some [1, 3])
   \<and> fst (exec_query (snd (exec_query hexagon iter_sorted (Connected 0 5))) iter_sorted
           Num_edges) = Count 6
   \<and> fst (exec_query (snd (exec_query hexagon iter_sorted (Connected 0 5))) iter_sorted
           Max_degree) = Degree (Inr 2)
   \<and> fst (exec_query (snd (exec_query hexagon iter_sorted (Connected_distance 0 5 3))) iter_sorted
           (Connected 0 5)) = Truth True
   \<and> fst (exec_query (snd (exec_query hexagon iter_sorted (Connected_distance 0 5 3))) iter_sorted
           (Connected_path 0 5 20)) = Paths (Some [[0, 1, 2, 5], [0, 3, 4, 5]])
   \<and> fst (exec_query (snd (exec_query hexagon iter_sorted (Connected_distance 0 5 3))) iter_sorted
           (Shortest_path 0 5)) = Items (Some [0, 1, 2, 5])
   \<and> fst (exec_query (snd (exec_query hexagon iter_sorted (Connected 0 5))) iter_sorted
           (Connected_distance 0 5 3)) = Truth True"
proof -
  have b: "built any_call hexagon"
    unfolding hexagon_def by (rule built_run[OF built.init]) simp
  have ok: "graph_ok hexagon"
    using b by (rule built_graph_ok)
  have it: "valid_iter iter_sorted"
    by (simp add: valid_iter_def iter_sorted_def)
  note c = queries_leave_graph_unchanged[of hexagon iter_sorted "Connected 0 5"]
  note d = queries_leave_graph_unchanged[of hexagon iter_sorted "Connected_distance 0 5 3"]
  have fc: "graph_ok (snd (exec_query hexagon iter_sorted (Connected 0 5)))
      \<and> (\<forall>v < length (vertex_heap hexagon).
            nbrs_of (snd (exec_query hexagon iter_sorted (Connected 0 5))) v = nbrs_of hexagon v)"
    by (rule c[THEN conjunct2, THEN conjunct2, THEN conjunct2, THEN conjunct1, THEN mp, OF ok])
  have fd: "graph_ok (snd (exec_query hexagon iter_sorted (Connected_distance 0 5 3)))
      \<and> (\<forall>v < length (vertex_heap hexagon).
            nbrs_of (snd (exec_query hexagon iter_sorted (Connected_distance 0 5 3))) v
              = nbrs_of hexagon v)"
    by (rule d[THEN conjunct2, THEN conjunct2, THEN conjunct2, THEN conjunct1, THEN mp, OF ok])
  have ac: "\<forall>q'. fst (exec_query (snd (exec_query hexagon iter_sorted (Connected 0 5))) iter_sorted q')
      = fst (exec_query hexagon iter_sorted q')"
    by (rule c[THEN conjunct2, THEN conjunct2, THEN conjunct2, THEN conjunct2, THEN mp,
          OF conjI[OF ok it]])
  have ad: "\<forall>q'. fst (exec_query (snd (exec_query hexagon iter_sorted (Connected_distance 0 5 3)))
        iter_sorted q')
      = fst (exec_query hexagon iter_sorted q')"
    by (rule d[THEN conjunct2, THEN conjunct2, THEN conjunct2, THEN conjunct2, THEN mp,
          OF conjI[OF ok it]])
  have n0: "nbrs_of (snd (exec_query hexagon iter_sorted (Connected 0 5))) 0 = {1, 3}"
    using fc[THEN conjunct2, rule_format, of 0] hexagon_store(4,5) by simp
  have n5: "nbrs_of (snd (exec_query hexagon iter_sorted (Connected_distance 0 5 3))) 5 = {2, 4}"
    using fd[THEN conjunct2, rule_format, of 5] hexagon_store(4,6) by simp
  show ?thesis
    using ok it hexagon_store(1,2,3) fc[THEN conjunct1] n0 n5
    by (simp only: ac[rule_format] ad[rule_format] hexagon_answers simp_thms)
qed

end
